theory Spec2Isabelle
  imports Complex_Main "HOL-Library.Word"
begin

unbundle bit_operations_syntax

section \<open>Data model\<close>

text \<open>
  Python \<open>bytes\<close> are lists of 8-bit words; iterating over them yields the unsigned value
  of each octet (\<open>unat\<close>). A Python \<open>str\<close> is a list of Unicode code points, so that
  \<open>ord\<close> and \<open>chr\<close> are the identity and \<open>len\<close> counts code points. Python integers are
  unbounded: \<open>nat\<close> where the source only ever adds, multiplies and divides non-negative
  values, \<open>int\<close> otherwise.
\<close>

type_synonym byte = "8 word"
type_synonym bytes = "byte list"
type_synonym str = "nat list"

datatype error = ValueError | AssertionError | IndexError | OverflowError | TypeError

text \<open>
  Modelled from the spec: the module \<open>const\<close> is imported by \<open>iscc.py\<close> but its text is
  not part of the sources. Its tables are the fields of a record that every function
  using \<open>const\<close> takes as its first argument. The two translation tables are dictionaries
  from code point to code point, as \<open>str.translate\<close> reads them; the gear table has 256
  entries and is indexed by an octet, so it is a function on bytes; the permutation
  tables are a pair of lists; the header constants are \<open>bytes\<close> values.
\<close>

record const =
  V2CTABLE :: "nat \<rightharpoonup> nat"
  C2VTABLE :: "nat \<rightharpoonup> nat"
  CHUNKING_GEAR :: "byte \<Rightarrow> nat"
  MINHASH_PERMUTATIONS :: "int list \<times> int list"
  WINDOW_SIZE_CID_T :: nat
  HEAD_CID_T :: bytes
  HEAD_CID_T_PCF :: bytes
  HEAD_DID :: bytes
  HEAD_IID :: bytes

text \<open>
  The functions of external libraries that the source calls (\<open>hashlib\<close>, \<open>xxhash\<close>,
  \<open>unicodedata\<close> and the \<open>str\<close> methods that read the Unicode database) are the fields of a
  record that every function using them takes as an argument: \<open>sha256 l data\<close> is
  \<open>sha256(data).digest()\<close>, \<open>xxh32_intdigest l data\<close> is \<open>xxhash.xxh32(data).intdigest()\<close>,
  \<open>utf8_encode l s\<close> is \<open>s.encode('utf-8')\<close>, \<open>normalize_NFKC l s\<close> is
  \<open>unicodedata.normalize('NFKC', s)\<close> and so on, \<open>category l ch\<close> is the general category of
  a code point, always two letters and so a pair of characters, \<open>lower l ch\<close> is
  \<open>ch.lower()\<close> and \<open>isspace l ch\<close> tells whether \<open>str.split()\<close> treats the code point as
  whitespace.
\<close>

record lib =
  sha256 :: "bytes \<Rightarrow> bytes"
  xxh32_intdigest :: "bytes \<Rightarrow> 32 word"
  utf8_encode :: "str \<Rightarrow> bytes"
  normalize_NFKC :: "str \<Rightarrow> str"
  normalize_NFD :: "str \<Rightarrow> str"
  normalize_NFC :: "str \<Rightarrow> str"
  category :: "nat \<Rightarrow> char \<times> char"
  lower :: "nat \<Rightarrow> str"
  isspace :: "nat \<Rightarrow> bool"

text \<open>
  Modelled from the spec: "the 58-character codec alphabet and its inverse translation
  table". \<open>V2CTABLE\<close> sends each of the 58 digit values to a symbol and \<open>C2VTABLE\<close> sends
  that symbol back to the value.
\<close>

definition codec_tables_ok :: "const \<Rightarrow> bool" where
  "codec_tables_ok c \<longleftrightarrow>
     (\<forall>v < 58. case V2CTABLE c v of None \<Rightarrow> False | Some s \<Rightarrow> C2VTABLE c s = Some v)"

section \<open>Codec: \<open>encode\<close> and \<open>decode\<close>\<close>

text \<open>\<open>str.translate(s, table)\<close>: a code point missing from the table is left as it is.\<close>

definition translate :: "(nat \<rightharpoonup> nat) \<Rightarrow> str \<Rightarrow> str" where
  "translate table s = map (\<lambda>ch. case table ch of None \<Rightarrow> ch | Some v \<Rightarrow> v) s"

text \<open>
  The \<open>for octet in digest\<close> loop of \<open>encode\<close> (over the reversed digest) and the
  \<open>for c in code\<close> loop of \<open>decode\<close> (over the reversed translated code) are the same
  loop with radix 256 and 58: the state is \<open>(value, numvalues)\<close>.
\<close>

definition accumulate :: "nat \<Rightarrow> nat list \<Rightarrow> nat \<times> nat" where
  "accumulate radix xs =
     fold (\<lambda>x (value, numvalues). (value + x * numvalues, numvalues * radix)) xs (0, 1)"

text \<open>The \<open>while numvalues > 0\<close> loop of \<open>encode\<close>; \<open>chars\<close> is appended to.\<close>

function encode_loop :: "nat \<Rightarrow> nat \<Rightarrow> nat list \<Rightarrow> nat list" where
  "encode_loop value numvalues chars =
     (if numvalues > 0
      then encode_loop (value div 58) (numvalues div 58) (chars @ [value mod 58])
      else chars)"
  by pat_completeness auto
termination
  by (relation "measure (\<lambda>(value, numvalues, chars). numvalues)") auto

declare encode_loop.simps [simp del]

function encode :: "const \<Rightarrow> bytes \<Rightarrow> error + str" where
  "encode c digest =
     (if length digest = 9 then
        (case encode c (take 1 digest) of
           Inl e \<Rightarrow> Inl e
         | Inr a \<Rightarrow> (case encode c (drop 1 digest) of
                      Inl e \<Rightarrow> Inl e
                    | Inr b \<Rightarrow> Inr (a @ b)))
      else if length digest \<noteq> 1 \<and> length digest \<noteq> 8 then Inl AssertionError
      else
        let (value, numvalues) = accumulate 256 (map unat (rev digest));
            chars = encode_loop value numvalues []
        in Inr (translate (V2CTABLE c) (rev chars)))"
  by pat_completeness auto
termination
  by (relation "measure (\<lambda>(c, digest). if length digest = 9 then 1 else 0)") auto

declare encode.simps [simp del]

text \<open>The \<open>while numvalues > 1\<close> loop of \<open>decode\<close>.\<close>

function decode_loop :: "nat \<Rightarrow> nat \<Rightarrow> nat list \<Rightarrow> nat list" where
  "decode_loop value numvalues data =
     (if numvalues > 1
      then decode_loop (value div 256) (numvalues div 256) (data @ [value mod 256])
      else data)"
  by pat_completeness auto
termination
  by (relation "measure (\<lambda>(value, numvalues, data). numvalues)") auto

declare decode_loop.simps [simp del]

function decode :: "const \<Rightarrow> str \<Rightarrow> error + bytes" where
  "decode c code =
     (let n = length code in
      if n = 13 then
        (case decode c (take 2 code) of
           Inl e \<Rightarrow> Inl e
         | Inr a \<Rightarrow> (case decode c (drop 2 code) of
                      Inl e \<Rightarrow> Inl e
                    | Inr b \<Rightarrow> Inr (a @ b)))
      else if n \<noteq> 2 \<and> n \<noteq> 11 then Inl ValueError
      else
        let bit_length = (if n = 2 then 8 else 64);
            (value, numvalues) = accumulate 58 (rev (translate (C2VTABLE c) code));
            data = decode_loop value (2 ^ bit_length) []
        in Inr (map of_nat (rev data)))"
  by pat_completeness auto
termination
  by (relation "measure (\<lambda>(c, code). if length code = 13 then 1 else 0)") auto

declare decode.simps [simp del]

section \<open>Minimum hash\<close>

text \<open>The three local constants of \<open>minimum_hash\<close>.\<close>

definition max_int64 :: int where "max_int64 = push_bit 64 1 - 1"
definition mersenne_prime :: int where "mersenne_prime = push_bit 61 1 - 1"
definition max_hash :: int where "max_hash = push_bit 32 1 - 1"

text \<open>The value \<open>nh\<close> computed for feature \<open>hv\<close> in slot \<open>x\<close>.\<close>

definition nh :: "int list \<Rightarrow> int list \<Rightarrow> int \<Rightarrow> nat \<Rightarrow> int" where
  "nh a b hv x = (((a ! x * hv + b ! x) AND max_int64) mod mersenne_prime) AND max_hash"

text \<open>
  The loop over the features. The inner loop reads \<open>a[x]\<close> and \<open>b[x]\<close> for every \<open>x\<close> in
  \<open>range(128)\<close>, which raises \<open>IndexError\<close> when a table has fewer than 128 entries;
  \<open>hashvalues\<close> always has 128 entries.
\<close>

fun minimum_hash_loop :: "int list \<Rightarrow> int list \<Rightarrow> int list \<Rightarrow> int list \<Rightarrow> error + int list" where
  "minimum_hash_loop a b hashvalues [] = Inr hashvalues"
| "minimum_hash_loop a b hashvalues (hv # features) =
     (if length a < 128 \<or> length b < 128 then Inl IndexError
      else
        let nhs = map (\<lambda>x. min (nh a b hv x) (hashvalues ! x)) [0..<128]
        in minimum_hash_loop a b nhs features)"

definition minimum_hash :: "const \<Rightarrow> int list \<Rightarrow> error + int list" where
  "minimum_hash c features =
     (let hashvalues = replicate 128 max_hash;
          (a, b) = MINHASH_PERMUTATIONS c
      in minimum_hash_loop a b hashvalues features)"

section \<open>Similarity hash\<close>

text \<open>
  \<open>int.from_bytes(digest, 'big', signed=False)\<close> and
  \<open>value.to_bytes(n_bytes, 'big', signed=False)\<close>; the latter raises \<open>OverflowError\<close> when
  the value does not fit.
\<close>

definition from_bytes_big :: "bytes \<Rightarrow> nat" where
  "from_bytes_big digest = fold (\<lambda>octet acc. acc * 256 + unat octet) digest 0"

definition to_bytes_big :: "nat \<Rightarrow> nat \<Rightarrow> error + bytes" where
  "to_bytes_big n_bytes v =
     (if v \<ge> 256 ^ n_bytes then Inl OverflowError
      else Inr (rev (map (\<lambda>k. of_nat (v div 256 ^ k)) [0..<n_bytes])))"

text \<open>
  The inner loop \<open>for i in range(n_bits): vector[i] += h & 1; h >>= 1\<close>, with state
  \<open>(vector, h)\<close>.
\<close>

definition add_bits :: "nat \<Rightarrow> nat list \<Rightarrow> nat \<Rightarrow> nat list \<times> nat" where
  "add_bits n_bits vector h =
     fold (\<lambda>i (vector, h). (vector[i := vector ! i + (h AND 1)], drop_bit 1 h))
       [0..<n_bits] (vector, h)"

text \<open>The outer loop over the digests, with its assertion on the length.\<close>

fun count_bits :: "nat \<Rightarrow> nat list \<Rightarrow> bytes list \<Rightarrow> error + nat list" where
  "count_bits n_bytes vector [] = Inr vector"
| "count_bits n_bytes vector (digest # rest) =
     (if length digest \<noteq> n_bytes then Inl AssertionError
      else count_bits n_bytes (fst (add_bits (n_bytes * 8) vector (from_bytes_big digest))) rest)"

text \<open>
  \<open>minfeatures = len(hash_digests) * 1. / 2\<close> is a float and \<open>vector[i] >= minfeatures\<close>
  compares an integer with it. Python compares an \<open>int\<close> and a \<open>float\<close> exactly, and half of
  an integer below \<open>2 ^ 53\<close> is an exact float, so the comparison is the one of the real
  numbers for every list that fits in memory.
\<close>

definition similarity_hash :: "bytes list \<Rightarrow> error + bytes" where
  "similarity_hash hash_digests =
     (case hash_digests of
        [] \<Rightarrow> Inl IndexError
      | first # _ \<Rightarrow>
          let n_bytes = length first;
              n_bits = n_bytes * 8
          in (case count_bits n_bytes (replicate n_bits 0) hash_digests of
                Inl e \<Rightarrow> Inl e
              | Inr vector \<Rightarrow>
                  let minfeatures = real (length hash_digests) * 1 / 2;
                      shash = fold (\<lambda>i shash. shash OR push_bit i (of_bool (real (vector ! i) \<ge> minfeatures)))
                                [0..<n_bits] (0 :: nat)
                  in to_bytes_big n_bytes shash))"

section \<open>Gear chunker\<close>

text \<open>
  The two \<open>while\<close> loops of \<open>chunk_length\<close> are one loop with two bounds and masks. The
  result is \<open>Inl i\<close> when the loop body returns \<open>i\<close>, and \<open>Inr (i, pattern)\<close>, the state
  reached, when the loop condition fails. \<open>data[i]\<close> is read only for \<open>i\<close> below the bound,
  which is at most \<open>len(data)\<close>.
\<close>

function chunk_length_loop :: "const \<Rightarrow> bytes \<Rightarrow> nat \<Rightarrow> nat \<Rightarrow> nat \<Rightarrow> nat \<Rightarrow> nat + nat \<times> nat" where
  "chunk_length_loop c data bound msk i pattern =
     (if i < bound then
        let pattern = push_bit 1 pattern + CHUNKING_GEAR c (data ! i)
        in if pattern AND msk = 0 then Inl i
           else chunk_length_loop c data bound msk (i + 1) pattern
      else Inr (i, pattern))"
  by pat_completeness auto
termination
  by (relation "measure (\<lambda>(c, data, bound, msk, i, pattern). bound - i)") auto

declare chunk_length_loop.simps [simp del]

definition chunk_length :: "const \<Rightarrow> bytes \<Rightarrow> nat \<Rightarrow> nat \<Rightarrow> nat \<Rightarrow> nat \<Rightarrow> nat \<Rightarrow> nat" where
  "chunk_length c data norm_size min_size max_size mask_1 mask_2 =
     (let data_length = length data;
          i = min_size;
          pattern = 0
      in if data_length \<le> min_size then data_length
         else (case chunk_length_loop c data (min norm_size data_length) mask_1 i pattern of
                 Inl i \<Rightarrow> i
               | Inr (i, pattern) \<Rightarrow>
                   (case chunk_length_loop c data (min max_size data_length) mask_2 i pattern of
                      Inl i \<Rightarrow> i
                    | Inr (i, pattern) \<Rightarrow> i)))"

text \<open>
  The argument of \<open>data_chunks\<close>, \<open>data_id\<close> and \<open>instance_id\<close> has the type
  \<open>B = TypeVar('B', BinaryIO, bytes)\<close>: a \<open>bytes\<close> value or a binary stream. The state of a
  stream is the list of the bytes not yet read together with, for the \<open>read\<close> calls to
  come, the largest number of bytes that each of them returns: a raw file, a pipe or a
  socket may return fewer bytes than asked for. A call returns at least one byte while
  bytes are left, since an empty result means the end of the stream. Once the list of
  limits is used up, \<open>read(n)\<close> returns the next \<open>n\<close> bytes, or all that is left, as
  \<open>BytesIO\<close> and buffered readers do.
\<close>

record reader =
  pending :: bytes
  limits :: "nat list"

datatype B = Bytes bytes | BinaryIO reader

definition BytesIO :: "bytes \<Rightarrow> reader" where
  "BytesIO data = \<lparr>pending = data, limits = []\<rparr>"

definition read :: "nat \<Rightarrow> reader \<Rightarrow> bytes \<times> reader" where
  "read n stream =
     (case limits stream of
        [] \<Rightarrow> (take n (pending stream), \<lparr>pending = drop n (pending stream), limits = []\<rparr>)
      | k # ks \<Rightarrow>
          let m = min n (max 1 k)
          in (take m (pending stream), \<lparr>pending = drop m (pending stream), limits = ks\<rparr>))"

text \<open>\<open>if not hasattr(data, 'read'): data = BytesIO(data)\<close>.\<close>

definition open_stream :: "B \<Rightarrow> reader" where
  "open_stream data = (case data of Bytes b \<Rightarrow> BytesIO b | BinaryIO stream \<Rightarrow> stream)"

text \<open>The bytes that an input holds.\<close>

definition contents :: "B \<Rightarrow> bytes" where
  "contents data = pending (open_stream data)"

text \<open>\<open>if len(section) < n: section += data.read(n)\<close>, on the pair \<open>(section, stream)\<close>.\<close>

definition refill :: "nat \<Rightarrow> bytes \<Rightarrow> reader \<Rightarrow> bytes \<times> reader" where
  "refill n section stream =
     (if length section < n
      then (let (more, stream) = read n stream in (section @ more, stream))
      else (section, stream))"

text \<open>
  The loop of \<open>data_chunks\<close> terminates because every boundary is positive; this needs the
  bounds of \<open>chunk_length\<close> first.
\<close>

lemma chunk_length_loop_bounds:
  "(chunk_length_loop c data bound msk i pattern = Inl j \<longrightarrow> i \<le> j \<and> j < bound) \<and>
   (chunk_length_loop c data bound msk i pattern = Inr (j, p) \<longrightarrow> j = max i bound)"
proof (induction c data bound msk i pattern rule: chunk_length_loop.induct)
  case (1 c data bound msk i pattern)
  show ?case
  proof (cases "i < bound")
    case False
    then show ?thesis by (subst (1 2) chunk_length_loop.simps) auto
  next
    case True
    define p' where "p' = push_bit 1 pattern + CHUNKING_GEAR c (data ! i)"
    show ?thesis
    proof (cases "p' AND msk = 0")
      case z: True
      then show ?thesis using True
        by (subst (1 2) chunk_length_loop.simps) (auto simp: p'_def Let_def)
    next
      case nz: False
      have eq: "chunk_length_loop c data bound msk i pattern
                = chunk_length_loop c data bound msk (i + 1) p'"
        using True nz by (subst chunk_length_loop.simps) (simp add: p'_def Let_def)
      show ?thesis
        unfolding eq using 1 [OF True p'_def nz] True by auto
    qed
  qed
qed

lemma chunk_length_bounds:
  assumes "min_size < max_size" and "norm_size \<le> max_size"
  shows "min (length data) min_size \<le> chunk_length c data norm_size min_size max_size mask_1 mask_2
       \<and> chunk_length c data norm_size min_size max_size mask_1 mask_2 \<le> min (length data) max_size"
proof (cases "length data \<le> min_size")
  case True
  then show ?thesis using assms by (simp add: chunk_length_def)
next
  case False
  let ?r1 = "chunk_length_loop c data (min norm_size (length data)) mask_1 min_size 0"
  show ?thesis
  proof (cases ?r1)
    case (Inl j)
    then have "min_size \<le> j \<and> j < min norm_size (length data)"
      using chunk_length_loop_bounds [of c data _ mask_1 min_size 0 j] by blast
    moreover have "chunk_length c data norm_size min_size max_size mask_1 mask_2 = j"
      using False Inl by (simp add: chunk_length_def)
    ultimately show ?thesis using assms False by auto
  next
    case (Inr ip)
    obtain i p where ip: "ip = (i, p)" by (cases ip)
    have i: "i = max min_size (min norm_size (length data))"
      using chunk_length_loop_bounds [of c data _ mask_1 min_size 0 i p] Inr ip by blast
    let ?r2 = "chunk_length_loop c data (min max_size (length data)) mask_2 i p"
    show ?thesis
    proof (cases ?r2)
      case (Inl j)
      then have "i \<le> j \<and> j < min max_size (length data)"
        using chunk_length_loop_bounds [of c data _ mask_2 i p j] by blast
      moreover have "chunk_length c data norm_size min_size max_size mask_1 mask_2 = j"
        using False Inr ip Inl by (simp add: chunk_length_def)
      ultimately show ?thesis using i False by auto
    next
      case r2: (Inr jq)
      obtain j q where jq: "jq = (j, q)" by (cases jq)
      have "j = max i (min max_size (length data))"
        using chunk_length_loop_bounds [of c data _ mask_2 i p j q] r2 jq by blast
      moreover have "chunk_length c data norm_size min_size max_size mask_1 mask_2 = j"
        using False Inr ip r2 jq by (simp add: chunk_length_def)
      ultimately show ?thesis using i False assms by auto
    qed
  qed
qed

lemma chunk_length_pos:
  assumes "data \<noteq> []" and "0 < min_size" and "min_size < max_size" and "norm_size \<le> max_size"
  shows "0 < chunk_length c data norm_size min_size max_size mask_1 mask_2"
  using chunk_length_bounds [OF assms(3,4), of data c mask_1 mask_2] assms(1,2)
  by (cases data) auto

lemma read_total: "read n stream = (chunk, stream') \<Longrightarrow> chunk @ pending stream' = pending stream"
  by (auto simp: read_def Let_def split: list.splits)

lemma read_nonempty:
  assumes "0 < n" and "pending stream \<noteq> []"
  shows "fst (read n stream) \<noteq> []"
  using assms by (auto simp: read_def Let_def split: list.splits)

lemma refill_total:
  "refill n section stream = (section', stream') \<Longrightarrow>
     section' @ pending stream' = section @ pending stream"
  by (auto simp: refill_def split: if_splits prod.splits dest: read_total)

lemma refill_decrease:
  assumes "(x, y) = refill n sect stream" and "length x \<noteq> 0" and "0 < b"
  shows "length (pending y) + length (drop b x) < length (pending stream) + length sect"
proof -
  have "x @ pending y = sect @ pending stream"
    using assms(1) refill_total [of n sect stream x y] by simp
  then have "length x + length (pending y) = length sect + length (pending stream)"
    by (metis length_append)
  moreover have "0 < length x" using assms(2) by simp
  ultimately show ?thesis using assms(3) by (simp del: length_greater_0_conv)
qed

text \<open>
  The \<open>while True\<close> loop of the generator \<open>data_chunks\<close>; the result is the list of the
  chunks it yields, in order.
\<close>

function data_chunks_loop :: "const \<Rightarrow> reader \<Rightarrow> bytes \<Rightarrow> nat \<Rightarrow> bytes list" where
  "data_chunks_loop c stream section counter =
     (if counter < 100 then
        (case refill 640 section stream of (section, stream) \<Rightarrow>
           if length section = 0 then []
           else
             let boundary = chunk_length c section 40 20 640 0x016118 0x00a0b1
             in take boundary section
                # data_chunks_loop c stream (drop boundary section) (counter + 1))
      else
        (case refill 65536 section stream of (section, stream) \<Rightarrow>
           if length section = 0 then []
           else
             let boundary = chunk_length c section 4096 2048 65536 0x0003590703530000 0x0000d90003530000
             in take boundary section
                # data_chunks_loop c stream (drop boundary section) (counter + 1)))"
  by pat_completeness auto
termination
proof (relation "measure (\<lambda>(c, stream, section, counter). length (pending stream) + length section)",
    goal_cases)
  case 1
  then show ?case by simp
next
  case (2 c stream sect counter x y b)
  have "0 < b" using 2 chunk_length_pos [of x 20 640 40] by auto
  then show ?case using refill_decrease [OF 2(2) 2(3)] by simp
next
  case (3 c stream sect counter x y b)
  have "0 < b" using 3 chunk_length_pos [of x 2048 65536 4096] by auto
  then show ?case using refill_decrease [OF 3(2) 3(3)] by simp
qed

declare data_chunks_loop.simps [simp del]

definition data_chunks :: "const \<Rightarrow> B \<Rightarrow> bytes list" where
  "data_chunks c data =
     (let data = open_stream data;
          (section, data) = read 640 data;
          counter = 0
      in data_chunks_loop c data section counter)"

text \<open>The parameters of the two stages, as functions of the chunk counter.\<close>

definition stage_refill :: "nat \<Rightarrow> nat" where
  "stage_refill counter = (if counter < 100 then 640 else 65536)"

definition stage_boundary :: "const \<Rightarrow> nat \<Rightarrow> bytes \<Rightarrow> nat" where
  "stage_boundary c counter sect =
     (if counter < 100 then chunk_length c sect 40 20 640 0x016118 0x00a0b1
      else chunk_length c sect 4096 2048 65536 0x0003590703530000 0x0000d90003530000)"

definition min_size_at :: "nat \<Rightarrow> nat" where
  "min_size_at counter = (if counter < 100 then 20 else 2048)"

definition max_size_at :: "nat \<Rightarrow> nat" where
  "max_size_at counter = (if counter < 100 then 640 else 65536)"


section \<open>Merkle top hash and Instance-ID\<close>









section \<open>Text normalization and sliding window\<close>

text \<open>
  \<open>str.split()\<close> without arguments: the maximal runs of non-whitespace characters, in order.
  \<open>word\<close> is the run being read.
\<close>

fun split_loop :: "(nat \<Rightarrow> bool) \<Rightarrow> str \<Rightarrow> str \<Rightarrow> str list" where
  "split_loop sp word [] = (if word = [] then [] else [word])"
| "split_loop sp word (ch # rest) =
     (if sp ch then (if word = [] then split_loop sp [] rest else word # split_loop sp [] rest)
      else split_loop sp (word @ [ch]) rest)"

definition split :: "lib \<Rightarrow> str \<Rightarrow> str list" where
  "split l s = split_loop (isspace l) [] s"

text \<open>\<open>sep.join(xs)\<close>.\<close>

fun join :: "'a list \<Rightarrow> 'a list list \<Rightarrow> 'a list" where
  "join sep [] = []"
| "join sep [x] = x"
| "join sep (x # y # ys) = x @ sep @ join sep (y # ys)"

text \<open>
  \<open>normalize_text\<close>. \<open>chars\<close> is the list of the strings appended in the loop: a space
  (code point 32) for a separator, \<open>c.lower()\<close> for a letter, number or symbol, nothing
  otherwise.
\<close>

definition normalize_text :: "lib \<Rightarrow> str \<Rightarrow> str" where
  "normalize_text l text =
     (let whitelist = ''LNS'';
          decomposed = normalize_NFD l text;
          chars = concat (map (\<lambda>ch.
                    let cat = category l ch
                    in if fst cat = CHR ''Z'' then [[32]]
                       else if fst cat \<in> set whitelist then [lower l ch]
                       else []) decomposed);
          filtered = concat chars;
          collapsed = join [32] (split l filtered);
          normalized = normalize_NFC l collapsed
      in normalized)"

text \<open>\<open>sliding_window\<close>: the slice \<open>text[i:i + width]\<close> is \<open>take width (drop i text)\<close>.\<close>

definition sliding_window :: "'a list \<Rightarrow> nat \<Rightarrow> error + 'a list list" where
  "sliding_window text width =
     (if \<not> width \<ge> 2 then Inl AssertionError
      else
        let idx = [0..<nat (max (int (length text) - int width + 1) 1)]
        in Inr (map (\<lambda>i. take width (drop i text)) idx))"

text \<open>
  The facts of the Unicode Character Database on which the idempotence of
  \<open>normalize_text\<close> rests, as a predicate on the library. A code point is inert under NFD
  when NFD passes it through unchanged wherever it stands (it has no decomposition and
  its combining class is 0). A code point is stable when it is inert, a letter, number or
  symbol, its own lowercase form and not whitespace. The library is as \<open>normalize_text\<close>
  needs it when NFD of the empty string is empty, NFD after NFC is NFD (the two forms are
  canonically equivalent), the lowercase form of a letter, number or symbol that NFD can
  produce consists of stable code points, and the space is inert, a separator and
  whitespace.
\<close>

definition nfd_inert :: "lib \<Rightarrow> nat \<Rightarrow> bool" where
  "nfd_inert l d \<longleftrightarrow>
     (\<forall>s1 s2. normalize_NFD l (s1 @ d # s2) = normalize_NFD l s1 @ d # normalize_NFD l s2)"

definition kept :: "lib \<Rightarrow> nat \<Rightarrow> bool" where
  "kept l ch \<longleftrightarrow> fst (category l ch) \<in> set ''LNS''"

definition stable :: "lib \<Rightarrow> nat \<Rightarrow> bool" where
  "stable l d \<longleftrightarrow> nfd_inert l d \<and> kept l d \<and> lower l d = [d] \<and> \<not> isspace l d"

definition unicode_ok :: "lib \<Rightarrow> bool" where
  "unicode_ok l \<longleftrightarrow>
     normalize_NFD l [] = []
     \<and> (\<forall>s. normalize_NFD l (normalize_NFC l s) = normalize_NFD l s)
     \<and> (\<forall>s ch d. ch \<in> set (normalize_NFD l s) \<and> kept l ch \<and> d \<in> set (lower l ch) \<longrightarrow> stable l d)
     \<and> nfd_inert l 32 \<and> fst (category l 32) = CHR ''Z'' \<and> isspace l 32"

section \<open>Content-ID-Text and Data-ID\<close>

text \<open>
  Steps 7 to 9 of \<open>content_id_text\<close>, which are steps 4 to 6 of \<open>data_id\<close>: the string
  \<open>lsb\<close> of the characters \<open>0\<close> and \<open>1\<close> is kept as the list of its binary digits, \<open>int(s, 2)\<close>
  reads such a list as a binary numeral, most significant digit first, and the two halves
  go through \<open>similarity_hash\<close>.
\<close>

definition int_base2 :: "nat list \<Rightarrow> nat" where
  "int_base2 digits = fold (\<lambda>d acc. 2 * acc + d) digits 0"

definition minhash_digest :: "int list \<Rightarrow> error + bytes" where
  "minhash_digest minhash =
     (let lsb = map (\<lambda>x. nat (x AND 1)) minhash
      in case to_bytes_big 8 (int_base2 (take 64 lsb)) of
           Inl e \<Rightarrow> Inl e
         | Inr a \<Rightarrow>
             (case to_bytes_big 8 (int_base2 (drop 64 lsb)) of
                Inl e \<Rightarrow> Inl e
              | Inr b \<Rightarrow> similarity_hash [a, b]))"

text \<open>
  \<open>content_id_text\<close> for a \<open>str\<close> argument (a \<open>bytes\<close> argument is decoded as UTF-8 first,
  which is not modelled).
\<close>

definition content_id_text :: "const \<Rightarrow> lib \<Rightarrow> str \<Rightarrow> bool \<Rightarrow> error + str" where
  "content_id_text c l text partial =
     (let text = normalize_NFKC l text;
          text = normalize_text l text;
          words = split l text
      in case sliding_window words (WINDOW_SIZE_CID_T c) of
           Inl e \<Rightarrow> Inl e
         | Inr windows \<Rightarrow>
             let shingles = map (join [32]) windows;
                 features = map (\<lambda>s. uint (xxh32_intdigest l (utf8_encode l s))) shingles
             in (case minimum_hash c features of
                   Inl e \<Rightarrow> Inl e
                 | Inr minhash \<Rightarrow>
                     (case minhash_digest minhash of
                        Inl e \<Rightarrow> Inl e
                      | Inr simhash_digest \<Rightarrow>
                          let content_id_text_digest =
                                (if partial then HEAD_CID_T_PCF c @ simhash_digest
                                 else HEAD_CID_T c @ simhash_digest)
                          in encode c content_id_text_digest)))"

definition data_id :: "const \<Rightarrow> lib \<Rightarrow> B \<Rightarrow> error + str" where
  "data_id c l data =
     (let features = map (\<lambda>chunk. uint (xxh32_intdigest l chunk)) (data_chunks c data)
      in case minimum_hash c features of
           Inl e \<Rightarrow> Inl e
         | Inr minhash \<Rightarrow>
             (case minhash_digest minhash of
                Inl e \<Rightarrow> Inl e
              | Inr simhash_digest \<Rightarrow>
                  let data_id_digest = HEAD_DID c @ simhash_digest
                  in encode c data_id_digest))"

section \<open>Hamming distance\<close>










text \<open>
  The value of a list of digits, least significant digit first: what the two
  accumulation loops compute.
\<close>

fun le_value :: "nat \<Rightarrow> nat list \<Rightarrow> nat" where
  "le_value radix [] = 0"
| "le_value radix (x # xs) = x + radix * le_value radix xs"


section \<open>A concrete instance of the tables\<close>

text \<open>
  The theorems below hold for every instance of \<open>const\<close> that satisfies their
  hypotheses. To evaluate the model on concrete inputs the tables are instantiated: the
  alphabet is the 58-symbol alphabet of the ISCC reference implementation (digits and
  letters without \<open>0\<close>, \<open>O\<close>, \<open>I\<close> and \<open>l\<close>), the translation tables are built from it as
  \<open>str.maketrans\<close> does for distinct keys, and the remaining entries are small stand-ins.
\<close>

definition table_of :: "nat list \<Rightarrow> nat list \<Rightarrow> (nat \<rightharpoonup> nat)" where
  "table_of xs ys = map_of (zip xs ys)"

definition SYMBOLS :: str where
  "SYMBOLS = map of_char ''C23456789rB1ZEFGTtYiAaVvMmHUPWXKDNbcdefghLjkSnopRqsJuQwxyz''"

definition sample_const :: const where
  "sample_const = \<lparr>
     V2CTABLE = table_of [0..<58] SYMBOLS,
     C2VTABLE = table_of SYMBOLS [0..<58],
     CHUNKING_GEAR = unat,
     MINHASH_PERMUTATIONS = (map (\<lambda>x. 2 * int x + 3) [0..<128], map (\<lambda>x. 5 * int x + 7) [0..<128]),
     WINDOW_SIZE_CID_T = 5,
     HEAD_CID_T = [0x10], HEAD_CID_T_PCF = [0x11], HEAD_DID = [0x20], HEAD_IID = [0x30] \<rparr>"

definition sample_data :: bytes where
  "sample_data = [3, 1, 4, 1, 5, 9, 2, 6, 5, 3, 5, 8, 9, 7, 9, 3, 2, 3, 8, 4, 8, 0, 0, 7, 7]"


text \<open>
  Stand-ins for the library functions, for evaluation only: a "hash" of 32 bytes that
  depends on the length of its input, and a view of the Unicode database that knows the
  space, the digits and the letters of ASCII and takes every other code point for
  punctuation.
\<close>

definition sample_lib :: lib where
  "sample_lib = \<lparr>
     sha256 = (\<lambda>data. replicate 32 (of_nat (length data))),
     xxh32_intdigest = (\<lambda>data. of_nat (length data)),
     utf8_encode = map of_nat,
     normalize_NFKC = id,
     normalize_NFD = id,
     normalize_NFC = id,
     category = (\<lambda>ch. if ch = 32 then (CHR ''Z'', CHR ''s'')
                     else if 48 \<le> ch \<and> ch \<le> 57 then (CHR ''N'', CHR ''d'')
                     else if 65 \<le> ch \<and> ch \<le> 90 then (CHR ''L'', CHR ''u'')
                     else if 97 \<le> ch \<and> ch \<le> 122 then (CHR ''L'', CHR ''l'')
                     else (CHR ''P'', CHR ''o'')),
     lower = (\<lambda>ch. if 65 \<le> ch \<and> ch \<le> 90 then [ch + 32] else [ch]),
     isspace = (\<lambda>ch. ch = 32 \<or> (9 \<le> ch \<and> ch \<le> 13)) \<rparr>"


section \<open>Codec: the digit loops\<close>

lemma encode_loop_append: "encode_loop v n cs = cs @ encode_loop v n []"
proof (induction n arbitrary: v cs rule: less_induct)
  case (less n)
  show ?case
  proof (cases "n > 0")
    case True
    then have lt: "n div 58 < n" by simp
    have "encode_loop v n cs = encode_loop (v div 58) (n div 58) (cs @ [v mod 58])"
      using True by (subst encode_loop.simps) simp
    also have "\<dots> = (cs @ [v mod 58]) @ encode_loop (v div 58) (n div 58) []"
      by (rule less.IH [OF lt])
    also have "\<dots> = cs @ encode_loop (v div 58) (n div 58) [v mod 58]"
      using less.IH [OF lt, of "v div 58" "[v mod 58]"] by simp
    also have "\<dots> = cs @ encode_loop v n []"
      using True by (subst (2) encode_loop.simps) simp
    finally show ?thesis .
  next
    case False
    then show ?thesis by (simp add: encode_loop.simps)
  qed
qed

lemma encode_loop_Cons:
  "encode_loop v n [] = (if n > 0 then (v mod 58) # encode_loop (v div 58) (n div 58) [] else [])"
  by (subst encode_loop.simps, subst encode_loop_append) simp

lemma decode_loop_append: "decode_loop v n ds = ds @ decode_loop v n []"
proof (induction n arbitrary: v ds rule: less_induct)
  case (less n)
  show ?case
  proof (cases "n > 1")
    case True
    then have lt: "n div 256 < n" by simp
    have "decode_loop v n ds = decode_loop (v div 256) (n div 256) (ds @ [v mod 256])"
      using True by (subst decode_loop.simps) simp
    also have "\<dots> = (ds @ [v mod 256]) @ decode_loop (v div 256) (n div 256) []"
      by (rule less.IH [OF lt])
    also have "\<dots> = ds @ decode_loop (v div 256) (n div 256) [v mod 256]"
      using less.IH [OF lt, of "v div 256" "[v mod 256]"] by simp
    also have "\<dots> = ds @ decode_loop v n []"
      using True by (subst (2) decode_loop.simps) simp
    finally show ?thesis .
  next
    case False
    then show ?thesis by (simp add: decode_loop.simps)
  qed
qed

lemma decode_loop_Cons:
  "decode_loop v n [] = (if n > 1 then (v mod 256) # decode_loop (v div 256) (n div 256) [] else [])"
  by (subst decode_loop.simps, subst decode_loop_append) simp

lemma fold_accumulate:
  "fold (\<lambda>x (value, numvalues). (value + x * numvalues, numvalues * radix)) xs (v, n)
     = (v + n * le_value radix xs, n * radix ^ length xs)"
  by (induction xs arbitrary: v n) (simp_all add: algebra_simps)

lemma accumulate_eq: "accumulate radix xs = (le_value radix xs, radix ^ length xs)"
  by (simp add: accumulate_def fold_accumulate)

lemma le_value_bound: "\<forall>x \<in> set xs. x < radix \<Longrightarrow> le_value radix xs < radix ^ length xs"
proof (induction xs)
  case Nil then show ?case by simp
next
  case (Cons x xs)
  then have "le_value radix xs + 1 \<le> radix ^ length xs" and "x < radix" by simp_all
  then have "radix * (le_value radix xs + 1) \<le> radix * radix ^ length xs" by (meson mult_le_mono2)
  then show ?case using \<open>x < radix\<close> by simp
qed

lemma decode_loop_gt1:
  "1 < n \<Longrightarrow> decode_loop v n [] = (v mod 256) # decode_loop (v div 256) (n div 256) []"
  by (subst decode_loop_Cons) simp

lemma decode_loop_le1: "n \<le> 1 \<Longrightarrow> decode_loop v n [] = []"
  by (subst decode_loop_Cons) simp

lemma decode_loop_le_value:
  "\<forall>x \<in> set xs. x < 256 \<Longrightarrow> decode_loop (le_value 256 xs) (256 ^ length xs) [] = xs"
proof (induction xs)
  case Nil then show ?case by (simp add: decode_loop.simps)
next
  case (Cons x xs)
  have gt: "1 < (256::nat) ^ length (x # xs)" by (rule one_less_power) simp_all
  have x: "x < 256" and xs: "\<forall>x \<in> set xs. x < 256" using Cons.prems by simp_all
  have "decode_loop (le_value 256 (x # xs)) (256 ^ length (x # xs)) []
      = le_value 256 (x # xs) mod 256
        # decode_loop (le_value 256 (x # xs) div 256) (256 ^ length (x # xs) div 256) []"
    by (rule decode_loop_gt1 [OF gt])
  also have "le_value 256 (x # xs) mod 256 = x" using x by simp
  also have "le_value 256 (x # xs) div 256 = le_value 256 xs" using x by simp
  also have "(256::nat) ^ length (x # xs) div 256 = 256 ^ length xs" by simp
  also have "decode_loop (le_value 256 xs) (256 ^ length xs) [] = xs" using Cons.IH xs by simp
  finally show ?case .
qed

lemma le_value_encode_loop:
  "le_value 58 (encode_loop v n []) = v mod 58 ^ length (encode_loop v n [])"
proof (induction n arbitrary: v rule: less_induct)
  case (less n)
  show ?case
  proof (cases "n > 0")
    case True
    then have lt: "n div 58 < n" by simp
    show ?thesis
      using True less.IH [OF lt, of "v div 58"]
      by (subst (1 2) encode_loop_Cons) (simp add: mod_mult2_eq)
  next
    case False
    then show ?thesis by (simp add: encode_loop.simps)
  qed
qed

lemma encode_loop_pos:
  "0 < n \<Longrightarrow> encode_loop v n [] = (v mod 58) # encode_loop (v div 58) (n div 58) []"
  by (subst encode_loop_Cons) simp

lemma encode_loop_zero: "encode_loop v 0 [] = []"
  by (subst encode_loop_Cons) simp

lemma length_encode_loop_1: "length (encode_loop v 256 []) = 2"
  by (simp add: encode_loop_pos encode_loop_zero)

lemma length_encode_loop_8: "length (encode_loop v (256 ^ 8) []) = 11"
  by (simp add: encode_loop_pos encode_loop_zero)

lemma encode_loop_digits: "x \<in> set (encode_loop v n []) \<Longrightarrow> x < 58"
proof (induction n arbitrary: v rule: less_induct)
  case (less n)
  show ?case
  proof (cases "n > 0")
    case True
    then have lt: "n div 58 < n" by simp
    from less.prems have "x = v mod 58 \<or> x \<in> set (encode_loop (v div 58) (n div 58) [])"
      by (simp add: encode_loop_pos [OF True])
    then show ?thesis
      using less.IH [OF lt] by auto
  next
    case False
    then show ?thesis using less.prems by (simp add: encode_loop_zero)
  qed
qed

section \<open>Codec: decoding an encoded digest\<close>

lemma translate_roundtrip:
  assumes "codec_tables_ok c" and "\<And>x. x \<in> set xs \<Longrightarrow> x < 58"
  shows "translate (C2VTABLE c) (translate (V2CTABLE c) xs) = xs"
proof -
  have "(case C2VTABLE c (case V2CTABLE c x of None \<Rightarrow> x | Some v \<Rightarrow> v) of None \<Rightarrow> (case V2CTABLE c x of None \<Rightarrow> x | Some v \<Rightarrow> v) | Some v \<Rightarrow> v) = x"
    if "x \<in> set xs" for x
    using assms(1) assms(2) [OF that]
    by (auto simp: codec_tables_ok_def split: option.splits)
  then show ?thesis
    by (simp add: translate_def map_idI)
qed

lemma length_translate [simp]: "length (translate t s) = length s"
  by (simp add: translate_def)

lemma unat_byte_bound: "x \<in> set (map unat (ds :: bytes)) \<Longrightarrow> x < 256"
proof -
  assume "x \<in> set (map unat ds)"
  then obtain w :: byte where "x = unat w" by auto
  moreover have "unat w < 2 ^ LENGTH(8)" by (rule unsigned_less)
  ultimately show ?thesis by simp
qed

lemma encode_short:
  assumes "length d = 1 \<or> length d = 8"
  shows "encode c d = Inr (translate (V2CTABLE c)
           (rev (encode_loop (le_value 256 (map unat (rev d))) (256 ^ length d) [])))"
  using assms by (subst encode.simps) (auto simp: accumulate_eq)

lemma length_encode_short:
  assumes "length d = 1 \<or> length d = 8" and "encode c d = Inr code"
  shows "length code = (if length d = 1 then 2 else 11)"
  using assms length_encode_loop_1 length_encode_loop_8
  by (auto simp: encode_short)

lemma decode_short:
  assumes "length code = 2 \<or> length code = 11"
  shows "decode c code = Inr (map of_nat (rev (decode_loop
           (le_value 58 (rev (translate (C2VTABLE c) code)))
           (2 ^ (if length code = 2 then 8 else 64)) [])))"
  using assms by (subst decode.simps) (auto simp: accumulate_eq Let_def)

lemma decode_encode_short:
  assumes ok: "codec_tables_ok c" and len: "length d = 1 \<or> length d = 8"
    and enc: "encode c d = Inr code"
  shows "decode c code = Inr d"
proof -
  define os where "os = map unat (rev d)"
  define v where "v = le_value 256 os"
  define E where "E = encode_loop v (256 ^ length d) []"
  have code: "code = translate (V2CTABLE c) (rev E)"
    using enc len by (simp add: encode_short E_def v_def os_def)
  have os_lt: "\<forall>x \<in> set os. x < 256"
    using unat_byte_bound unfolding os_def by blast
  have lenE: "length E = (if length d = 1 then 2 else 11)"
    using len length_encode_loop_1 [of v] length_encode_loop_8 [of v] by (auto simp: E_def)
  have v_lt: "v < 256 ^ length d"
    using le_value_bound [OF os_lt] by (simp add: v_def os_def)
  have "(256::nat) ^ length d \<le> 58 ^ length E"
    using len lenE by auto
  then have v_small: "v < 58 ^ length E" using v_lt by simp
  have "translate (C2VTABLE c) code = rev E"
    unfolding code using translate_roundtrip [OF ok, of "rev E"] encode_loop_digits
    by (simp add: E_def)
  then have "le_value 58 (rev (translate (C2VTABLE c) code)) = le_value 58 E" by simp
  also have "\<dots> = v mod 58 ^ length E" unfolding E_def by (rule le_value_encode_loop)
  also have "\<dots> = v" using v_small by simp
  finally have val: "le_value 58 (rev (translate (C2VTABLE c) code)) = v" .
  have lencode: "length code = (if length d = 1 then 2 else 11)"
    using lenE by (simp add: code)
  have pow: "(2::nat) ^ (if length code = 2 then 8 else 64) = 256 ^ length os"
    using len lencode by (auto simp: os_def)
  have "decode c code = Inr (map of_nat (rev (decode_loop
           (le_value 58 (rev (translate (C2VTABLE c) code)))
           (2 ^ (if length code = 2 then 8 else 64)) [])))"
    using lencode len by (intro decode_short) (auto split: if_splits)
  then have "decode c code = Inr (map of_nat (rev (decode_loop v (256 ^ length os) [])))"
    by (simp only: val pow)
  also have "decode_loop v (256 ^ length os) [] = os"
    unfolding v_def by (rule decode_loop_le_value [OF os_lt])
  also have "map of_nat (rev os) = d"
    by (simp add: os_def rev_map map_idI)
  finally show ?thesis .
qed

lemma encode_9:
  assumes "length d = 9"
  shows "encode c d =
     (case encode c (take 1 d) of Inl e \<Rightarrow> Inl e
      | Inr a \<Rightarrow> (case encode c (drop 1 d) of Inl e \<Rightarrow> Inl e | Inr b \<Rightarrow> Inr (a @ b)))"
  using assms by (subst encode.simps) simp

lemma decode_13:
  assumes "length code = 13"
  shows "decode c code =
     (case decode c (take 2 code) of Inl e \<Rightarrow> Inl e
      | Inr a \<Rightarrow> (case decode c (drop 2 code) of Inl e \<Rightarrow> Inl e | Inr b \<Rightarrow> Inr (a @ b)))"
  using assms by (subst decode.simps) simp

lemma length_decode_loop_8: "length (decode_loop v 256 []) = 1"
  by (simp add: decode_loop_gt1 decode_loop_le1)

lemma length_decode_loop_64: "length (decode_loop v 18446744073709551616 []) = 8"
  by (simp add: decode_loop_gt1 decode_loop_le1)

section \<open>Codec: evaluation on the concrete tables\<close>

lemma sample_ok: "codec_tables_ok sample_const"
proof -
  have len: "length SYMBOLS = 58" by (simp add: SYMBOLS_def)
  have d: "distinct SYMBOLS" by (simp add: SYMBOLS_def)
  have "V2CTABLE sample_const v = Some (SYMBOLS ! v)" if "v < 58" for v
    using that map_of_zip_nth [of "[0..<58]" SYMBOLS v] len
    by (simp add: sample_const_def table_of_def)
  moreover have "C2VTABLE sample_const (SYMBOLS ! v) = Some v" if "v < 58" for v
    using that map_of_zip_nth [of SYMBOLS "[0..<58]" v] len d
    by (simp add: sample_const_def table_of_def)
  ultimately show ?thesis by (simp add: codec_tables_ok_def)
qed

lemmas sample_eval = sample_const_def table_of_def SYMBOLS_def upt_rec_numeral upt_conv_Cons
  translate_def
  accumulate_def encode_loop_pos encode_loop_zero decode_loop_gt1 decode_loop_le1

lemma encode_sample_9:
  "encode sample_const [0x10, 1, 2, 3, 4, 5, 6, 7, 8] = Inr (map of_char ''CTCrn6Uebx1Dd'')"
  by (simp add: encode.simps sample_eval)

section \<open>Codec: the claims\<close>

text \<open>
  C1. For every byte digest \<open>d\<close> of length 1, 8 or 9, \<open>encode\<close> succeeds and
  \<open>decode (encode d) = d\<close>: \<open>decode\<close> is a left inverse of \<open>encode\<close> on all legal digest
  lengths, for every pair of translation tables that are inverse to each other on the 58
  digit values.
\<close>

theorem decode_encode:
  assumes "codec_tables_ok c" and "length d \<in> {1, 8, 9}"
  shows "\<exists>code. encode c d = Inr code \<and> decode c code = Inr d"
proof (cases "length d = 9")
  case False
  then have len: "length d = 1 \<or> length d = 8" using assms(2) by simp
  then obtain code where enc: "encode c d = Inr code" by (simp add: encode_short)
  then show ?thesis using decode_encode_short [OF assms(1) len enc] by simp
next
  case True
  have l1: "length (take 1 d) = 1 \<or> length (take 1 d) = 8" using True by simp
  have l8: "length (drop 1 d) = 1 \<or> length (drop 1 d) = 8" using True by simp
  obtain a where a: "encode c (take 1 d) = Inr a" using l1 by (simp add: encode_short)
  obtain b where b: "encode c (drop 1 d) = Inr b" using l8 by (simp add: encode_short)
  have la: "length a = 2" using length_encode_short [OF l1 a] True by simp
  have lb: "length b = 11" using length_encode_short [OF l8 b] True by simp
  have enc: "encode c d = Inr (a @ b)" using True a b by (simp add: encode_9)
  have "decode c (a @ b) = Inr (take 1 d @ drop 1 d)"
    using la lb decode_encode_short [OF assms(1) l1 a] decode_encode_short [OF assms(1) l8 b]
    by (subst decode_13) simp_all
  then show ?thesis using enc by simp
qed

theorem decode_encode_witness:
  "codec_tables_ok sample_const
   \<and> length [0x10, 1, 2, 3, 4, 5, 6, 7, 8 :: byte] \<in> {1, 8, 9}
   \<and> encode sample_const [0x10, 1, 2, 3, 4, 5, 6, 7, 8] = Inr (map of_char ''CTCrn6Uebx1Dd'')
   \<and> decode sample_const (map of_char ''CTCrn6Uebx1Dd'') = Inr [0x10, 1, 2, 3, 4, 5, 6, 7, 8]"
proof -
  have len: "length [0x10, 1, 2, 3, 4, 5, 6, 7, 8 :: byte] \<in> {1, 8, 9}" by simp
  from decode_encode [OF sample_ok len] encode_sample_9
  have "decode sample_const (map of_char ''CTCrn6Uebx1Dd'') = Inr [0x10, 1, 2, 3, 4, 5, 6, 7, 8]"
    by auto
  then show ?thesis using sample_ok len encode_sample_9 by simp
qed

lemma decode_length_spec:
  "(length code \<notin> {2, 11, 13} \<longrightarrow> decode c code = Inl ValueError) \<and>
   (length code \<in> {2, 11, 13} \<longrightarrow>
      (\<exists>d. decode c code = Inr d \<and>
           length d = (if length code = 2 then 1 else if length code = 11 then 8 else 9)))"
proof -
  have short: "\<exists>d. decode c s = Inr d \<and> length d = (if length s = 2 then 1 else 8)"
    if "length s = 2 \<or> length s = 11" for s
    using that by (auto simp: decode_short length_decode_loop_8 length_decode_loop_64)
  have bad: "decode c code = Inl ValueError" if "length code \<notin> {2, 11, 13}"
    using that by (subst decode.simps) (simp add: Let_def)
  have long: "\<exists>d. decode c code = Inr d \<and> length d = 9" if "length code = 13"
  proof -
    have l2: "length (take 2 code) = 2" and l11: "length (drop 2 code) = 11"
      using that by simp_all
    obtain a where a: "decode c (take 2 code) = Inr a" "length a = 1"
      using short [of "take 2 code"] l2 by auto
    obtain b where b: "decode c (drop 2 code) = Inr b" "length b = 8"
      using short [of "drop 2 code"] l11 by auto
    show ?thesis using a b that by (simp add: decode_13)
  qed
  show ?thesis using short [of code] bad long by auto
qed

text \<open>
  C7, as the code has it. \<open>decode\<close> raises \<open>ValueError\<close> exactly on the code strings whose
  length is not 2, 11 or 13. On every string of length 2, 11 or 13 it returns a digest of
  1, 8 or 9 bytes, whatever its characters are: a character that is not a key of
  \<open>C2VTABLE\<close> passes through \<open>str.translate\<close> unchanged and its code point is used as the
  digit value. There is no check of the characters.
\<close>

theorem decode_fails_iff_length:
  "(length code \<notin> {2, 11, 13} \<longrightarrow> decode c code = Inl ValueError) \<and>
   (length code \<in> {2, 11, 13} \<longrightarrow>
      (\<exists>d. decode c code = Inr d \<and>
           length d = (if length code = 2 then 1 else if length code = 11 then 8 else 9)))"
  by (rule decode_length_spec)

theorem decode_fails_iff_length_witness:
  "length [1, 2, 3 :: nat] \<notin> {2, 11, 13} \<and> decode sample_const [1, 2, 3] = Inl ValueError \<and>
   length (map of_char ''II'' :: str) \<in> {2, 11, 13} \<and>
   (\<exists>d. decode sample_const (map of_char ''II'') = Inr d \<and> length d = 1)"
  using decode_fails_iff_length [of "[1, 2, 3]" sample_const]
    decode_fails_iff_length [of "map of_char ''II''" sample_const]
  by simp

text \<open>
  C7 as stated fails: the two-character string \<open>II\<close> contains a character outside the
  alphabet (\<open>I\<close> is not a key of \<open>C2VTABLE\<close>), and \<open>decode\<close> returns the one-byte digest
  \<open>0xD3\<close> (73 * 58 + 73 = 4307, and 4307 mod 256 = 211) instead of failing.
\<close>

theorem decode_illegal_character_counterexample:
  "of_char CHR ''I'' \<notin> set SYMBOLS
   \<and> C2VTABLE sample_const (of_char CHR ''I'') = None
   \<and> decode sample_const (map of_char ''II'') = Inr [211]"
  by (simp add: decode.simps sample_eval)

section \<open>Minimum hash: the claims\<close>

lemma nh_bounds: "0 \<le> nh a b hv x \<and> nh a b hv x \<le> 2 ^ 32 - 1"
proof -
  have "(0::int) \<le> max_hash" by (simp add: max_hash_def)
  then show ?thesis
    unfolding nh_def using AND_upper2 [of max_hash] by (simp add: max_hash_def)
qed

lemma nh_explicit:
  "nh a b hv x = (((a ! x * hv + b ! x) AND (2 ^ 64 - 1)) mod (2 ^ 61 - 1)) AND (2 ^ 32 - 1)"
  by (simp add: nh_def max_int64_def mersenne_prime_def max_hash_def)

lemma minimum_hash_loop_slots:
  assumes "128 \<le> length a" and "128 \<le> length b" and "length hashvalues = 128"
  shows "\<exists>hs. minimum_hash_loop a b hashvalues features = Inr hs \<and> length hs = 128 \<and>
           (\<forall>x < 128. hs ! x = fold (\<lambda>hv r. min (nh a b hv x) r) features (hashvalues ! x))"
  using assms(3)
proof (induction features arbitrary: hashvalues)
  case Nil
  then show ?case by simp
next
  case (Cons hv features)
  define nhs where "nhs = map (\<lambda>x. min (nh a b hv x) (hashvalues ! x)) [0..<128]"
  have len: "length nhs = 128" by (simp add: nhs_def)
  have nth: "nhs ! x = min (nh a b hv x) (hashvalues ! x)" if "x < 128" for x
    using that unfolding nhs_def by (simp only: nth_map_upt) simp
  from Cons.IH [OF len] obtain hs where
    hs: "minimum_hash_loop a b nhs features = Inr hs" "length hs = 128"
      "\<forall>x < 128. hs ! x = fold (\<lambda>hv r. min (nh a b hv x) r) features (nhs ! x)"
    by blast
  have "minimum_hash_loop a b hashvalues (hv # features) = Inr hs"
    using assms(1,2) hs(1) by (simp add: nhs_def Let_def)
  then show ?case using hs(2,3) nth by simp
qed

lemma fold_min_bounds:
  fixes r :: int
  assumes "0 \<le> r" "r \<le> m" "\<And>h. 0 \<le> f h \<and> f h \<le> m"
  shows "0 \<le> fold (\<lambda>h r. min (f h) r) hs r \<and> fold (\<lambda>h r. min (f h) r) hs r \<le> m"
  using assms(1,2)
proof (induction hs arbitrary: r)
  case Nil then show ?case by simp
next
  case (Cons h hs)
  have "0 \<le> min (f h) r" "min (f h) r \<le> m" using Cons.prems assms(3) [of h] by auto
  from Cons.IH [OF this] show ?case by simp
qed

lemma fold_min_Min:
  fixes r :: int
  shows "fold (\<lambda>h r. min (f h) r) hs r = Min (insert r (f ` set hs))"
proof (induction hs arbitrary: r)
  case Nil then show ?case by simp
next
  case (Cons h hs)
  have fin: "finite (f ` set hs)" by simp
  have "Min (insert (min (f h) r) (f ` set hs)) = Min (insert r (insert (f h) (f ` set hs)))"
  proof (cases "f ` set hs = {}")
    case True
    then show ?thesis by (simp add: min.commute)
  next
    case False
    then show ?thesis using fin
      by (simp add: Min_insert min.assoc min.commute min.left_commute)
  qed
  then show ?case using Cons.IH [of "min (f h) r"] by simp
qed

lemma minimum_hash_empty: "minimum_hash c [] = Inr (replicate 128 (2 ^ 32 - 1))"
  by (simp add: minimum_hash_def max_hash_def split: prod.splits)

text \<open>
  C3. For every list of features (32-bit unsigned or any other integers) and permutation
  tables of 128 entries each, \<open>minimum_hash\<close> returns a list of exactly 128 integers, each
  in \<open>[0, 2^32 - 1]\<close>, where slot \<open>x\<close> is the minimum over all features \<open>h\<close> of
  \<open>(((a[x] * h + b[x]) & (2^64 - 1)) mod (2^61 - 1)) & (2^32 - 1)\<close>, folded against the
  initial register value \<open>2^32 - 1\<close>.
\<close>

theorem minimum_hash_slots:
  assumes "MINHASH_PERMUTATIONS c = (a, b)" and "length a = 128" and "length b = 128"
  shows "\<exists>hs. minimum_hash c features = Inr hs \<and> length hs = 128 \<and>
           (\<forall>x < 128.
              0 \<le> hs ! x \<and> hs ! x \<le> 2 ^ 32 - 1 \<and>
              hs ! x = fold (\<lambda>h r. min ((((a ! x * h + b ! x) AND (2 ^ 64 - 1)) mod (2 ^ 61 - 1))
                                          AND (2 ^ 32 - 1)) r) features (2 ^ 32 - 1) \<and>
              hs ! x = Min (insert (2 ^ 32 - 1)
                         ((\<lambda>h. (((a ! x * h + b ! x) AND (2 ^ 64 - 1)) mod (2 ^ 61 - 1))
                                 AND (2 ^ 32 - 1)) ` set features)))"
proof -
  have "length (replicate 128 max_hash) = 128" by simp
  from minimum_hash_loop_slots [of a b "replicate 128 max_hash" features, OF _ _ this] assms(2,3)
  obtain hs where hs: "minimum_hash_loop a b (replicate 128 max_hash) features = Inr hs"
      "length hs = 128"
      "\<forall>x < 128. hs ! x = fold (\<lambda>hv r. min (nh a b hv x) r) features (replicate 128 max_hash ! x)"
    by auto
  have mh: "max_hash = 2 ^ 32 - 1" by (simp add: max_hash_def)
  have eq: "hs ! x = fold (\<lambda>hv r. min (nh a b hv x) r) features (2 ^ 32 - 1)" if "x < 128" for x
    using hs(3) that by (simp add: mh)
  have res: "minimum_hash c features = Inr hs"
    using hs(1) assms(1) by (simp add: minimum_hash_def)
  have "0 \<le> hs ! x \<and> hs ! x \<le> 2 ^ 32 - 1 \<and>
        hs ! x = fold (\<lambda>h r. min (nh a b h x) r) features (2 ^ 32 - 1) \<and>
        hs ! x = Min (insert (2 ^ 32 - 1) ((\<lambda>h. nh a b h x) ` set features))" if "x < 128" for x
    using eq [OF that] fold_min_bounds [of "2 ^ 32 - 1" "2 ^ 32 - 1" "\<lambda>h. nh a b h x" features]
      nh_bounds [of a b _ x] fold_min_Min [of "\<lambda>h. nh a b h x" features "2 ^ 32 - 1"]
    by simp
  then show ?thesis using res hs(2) unfolding nh_explicit by blast
qed


theorem minimum_hash_slots_witness:
  "MINHASH_PERMUTATIONS sample_const
     = (map (\<lambda>x. 2 * int x + 3) [0..<128], map (\<lambda>x. 5 * int x + 7) [0..<128])
   \<and> length (map (\<lambda>x. 2 * int x + 3) [0..<128]) = 128
   \<and> length (map (\<lambda>x. 5 * int x + 7) [0..<128]) = 128
   \<and> (\<exists>hs. minimum_hash sample_const [5, 4] = Inr hs \<and> length hs = 128 \<and> hs ! 1 = 32)"
proof -
  have p: "MINHASH_PERMUTATIONS sample_const
     = (map (\<lambda>x. 2 * int x + 3) [0..<128], map (\<lambda>x. 5 * int x + 7) [0..<128])"
    by (simp add: sample_const_def)
  have la: "length (map (\<lambda>x. 2 * int x + 3) [0..<128]) = 128" by simp
  have lb: "length (map (\<lambda>x. 5 * int x + 7) [0..<128]) = 128" by simp
  have x: "(1::nat) < 128" by simp
  from minimum_hash_slots [OF p la lb, of "[5, 4]"]
  obtain hs where hs: "minimum_hash sample_const [5, 4] = Inr hs" "length hs = 128"
    and slot: "\<forall>x<128. hs ! x = fold (\<lambda>h r. min ((((map (\<lambda>x. 2 * int x + 3) [0..<128] ! x * h
        + map (\<lambda>x. 5 * int x + 7) [0..<128] ! x) AND (2 ^ 64 - 1)) mod (2 ^ 61 - 1))
                                          AND (2 ^ 32 - 1)) r) [5, 4] (2 ^ 32 - 1)"
    by blast
  have "hs ! 1 = 32" using slot x by (simp del: upt_Suc add: nth_map_upt)
  then show ?thesis using p hs by simp
qed

section \<open>Similarity hash: the claims\<close>

lemma and_one_of_bool: "(drop_bit n (h::nat)) AND 1 = of_bool (bit h n)"
  by (simp add: and_one_eq bit_iff_odd_drop_bit mod_2_eq_odd)

lemma add_bits_spec:
  assumes "n \<le> length vector"
  shows "length (fst (add_bits n vector h)) = length vector
       \<and> snd (add_bits n vector h) = drop_bit n h
       \<and> (\<forall>i < length vector. fst (add_bits n vector h) ! i
              = vector ! i + (if i < n then of_bool (bit h i) else 0))"
  using assms
proof (induction n)
  case 0
  then show ?case by (simp add: add_bits_def)
next
  case (Suc n)
  obtain v' h' where st: "add_bits n vector h = (v', h')" by (cases "add_bits n vector h")
  from Suc have IH: "length v' = length vector" "h' = drop_bit n h"
    "\<forall>i < length vector. v' ! i = vector ! i + (if i < n then of_bool (bit h i) else 0)"
    by (simp_all add: st)
  have step: "add_bits (Suc n) vector h = (v'[n := v' ! n + (h' AND 1)], drop_bit 1 h')"
    using st by (simp add: add_bits_def)
  have n: "n < length vector" using Suc.prems by simp
  have "\<forall>i < length vector. (v'[n := v' ! n + (h' AND 1)]) ! i
          = vector ! i + (if i < Suc n then of_bool (bit h i) else 0)"
  proof (intro allI impI)
    fix i assume i: "i < length vector"
    show "(v'[n := v' ! n + (h' AND 1)]) ! i
          = vector ! i + (if i < Suc n then of_bool (bit h i) else 0)"
    proof (cases "i = n")
      case True
      have b: "h' AND 1 = of_bool (bit h n)" unfolding IH(2) by (rule and_one_of_bool)
      have "v' ! n = vector ! n" using IH(3) n by simp
      then show ?thesis using True IH(1) n unfolding b by simp
    next
      case False
      then show ?thesis using IH i by (auto simp: less_Suc_eq)
    qed
  qed
  then show ?case using IH by (simp add: step)
qed

lemma count_bits_spec:
  assumes "\<forall>d \<in> set ds. length d = n_bytes" and "length vector = n_bytes * 8"
  shows "\<exists>v. count_bits n_bytes vector ds = Inr v \<and> length v = n_bytes * 8 \<and>
           (\<forall>i < n_bytes * 8. v ! i = vector ! i + length (filter (\<lambda>d. bit (from_bytes_big d) i) ds))"
  using assms
proof (induction ds arbitrary: vector)
  case Nil
  then show ?case by simp
next
  case (Cons d ds)
  define v1 where "v1 = fst (add_bits (n_bytes * 8) vector (from_bytes_big d))"
  have ab: "length v1 = length vector"
    "\<forall>i < length vector. v1 ! i = vector ! i + (if i < n_bytes * 8 then of_bool (bit (from_bytes_big d) i) else 0)"
    using add_bits_spec [of "n_bytes * 8" vector "from_bytes_big d"] Cons.prems(2)
    by (simp_all add: v1_def)
  have len1: "length v1 = n_bytes * 8" using ab(1) Cons.prems(2) by simp
  have ds: "\<forall>d \<in> set ds. length d = n_bytes" using Cons.prems(1) by simp
  from Cons.IH [OF ds len1] obtain v where
    v: "count_bits n_bytes v1 ds = Inr v" "length v = n_bytes * 8"
       "\<forall>i < n_bytes * 8. v ! i = v1 ! i + length (filter (\<lambda>d. bit (from_bytes_big d) i) ds)"
    by blast
  have "count_bits n_bytes vector (d # ds) = Inr v"
    using Cons.prems(1) v(1) by (simp add: v1_def)
  moreover have "\<forall>i < n_bytes * 8. v ! i
       = vector ! i + length (filter (\<lambda>d. bit (from_bytes_big d) i) (d # ds))"
    using v(3) ab(2) Cons.prems(2) by simp
  ultimately show ?case using v(2) by blast
qed

lemma bit_shash:
  "bit (fold (\<lambda>i shash. shash OR push_bit i (of_bool (P i))) [0..<n] (0::nat)) j
     \<longleftrightarrow> j < n \<and> P j"
proof (induction n)
  case 0
  then show ?case by simp
next
  case (Suc n)
  have "bit (push_bit n (of_bool (P n) :: nat)) j \<longleftrightarrow> j = n \<and> P n"
    by (auto simp: bit_push_bit_iff bit_of_bool_iff)
  then show ?case using Suc by (auto simp: bit_or_iff less_Suc_eq)
qed

lemma bits_below_imp_less:
  fixes x :: nat
  assumes "\<And>j. bit x j \<Longrightarrow> j < n"
  shows "x < 2 ^ n"
proof -
  have "take_bit n x = x"
    by (rule bit_eqI) (use assms in \<open>auto simp: bit_take_bit_iff\<close>)
  then show ?thesis by (metis take_bit_nat_less_exp)
qed

lemma from_bytes_big_rev:
  "from_bytes_big (rev xs) = foldr (\<lambda>octet acc. acc * 256 + unat octet) xs 0"
  by (simp add: from_bytes_big_def foldr_conv_fold)

lemma foldr_octets:
  "foldr (\<lambda>octet acc. acc * 256 + unat (octet :: byte)) (map (\<lambda>k. of_nat (v div 256 ^ k)) [0..<n]) 0
     = v mod 256 ^ n"
proof (induction n arbitrary: v)
  case 0
  then show ?case by simp
next
  case (Suc n)
  have upt: "[0..<Suc n] = 0 # map Suc [0..<n]"
    by (simp only: upt_conv_Cons [OF zero_less_Suc] map_Suc_upt)
  define f where "f = (\<lambda>(octet :: byte) acc. acc * 256 + unat octet)"
  have shift: "map (\<lambda>k. of_nat (v div 256 ^ k) :: byte) (map Suc [0..<n])
                = map (\<lambda>k. of_nat ((v div 256) div 256 ^ k)) [0..<n]"
    by (simp add: div_mult2_eq)
  have u: "unat (of_nat v :: byte) = v mod 256"
    by (simp add: unat_of_nat)
  have "foldr f (map (\<lambda>k. of_nat (v div 256 ^ k)) [0..<Suc n]) 0
      = f (of_nat v) (foldr f (map (\<lambda>k. of_nat (v div 256 ^ k)) (map Suc [0..<n])) 0)"
    unfolding upt by simp
  also have "\<dots> = f (of_nat v) (foldr f (map (\<lambda>k. of_nat ((v div 256) div 256 ^ k)) [0..<n]) 0)"
    unfolding shift ..
  also have "\<dots> = f (of_nat v) ((v div 256) mod 256 ^ n)"
    using Suc.IH [of "v div 256"] unfolding f_def by simp
  also have "\<dots> = v mod 256 ^ Suc n"
    unfolding f_def u by (simp add: mod_mult2_eq)
  finally show ?case unfolding f_def .
qed

lemma to_bytes_big_spec:
  assumes "v < 256 ^ n"
  shows "\<exists>bs. to_bytes_big n v = Inr bs \<and> length bs = n \<and> from_bytes_big bs = v"
  using assms by (simp add: to_bytes_big_def from_bytes_big_rev foldr_octets)

lemma half_le_iff: "real n * 1 / 2 \<le> real k \<longleftrightarrow> n \<le> 2 * k"
proof -
  have "real n * 1 / 2 \<le> real k \<longleftrightarrow> real n \<le> real (2 * k)" by (simp add: field_simps)
  also have "\<dots> \<longleftrightarrow> n \<le> 2 * k" by (rule of_nat_le_iff)
  finally show ?thesis .
qed


lemma fb1: "from_bytes_big [0x0F] = 15" "from_bytes_big [0x05] = 5"
  by (simp_all add: from_bytes_big_def)

lemma upt8: "[0..<8] = [0, 1, 2, 3, 4, 5, 6, 7]"
  by (simp add: upt_rec_numeral upt_conv_Cons)

lemma rep8: "replicate 8 (0::nat) = [0, 0, 0, 0, 0, 0, 0, 0]"
  by (simp add: eval_nat_numeral)

lemma ab1: "fst (add_bits 8 [0, 0, 0, 0, 0, 0, 0, 0] 15) = [1, 1, 1, 1, 0, 0, 0, 0]"
  by (simp add: add_bits_def upt8 and_one_eq drop_bit_Suc)

lemma ab2: "fst (add_bits 8 [1, 1, 1, 1, 0, 0, 0, 0] 5) = [2, 1, 2, 1, 0, 0, 0, 0]"
  by (simp add: add_bits_def upt8 and_one_eq drop_bit_Suc)

lemma cb: "count_bits (Suc 0) (replicate 8 0) [[0x0F], [0x05]] = Inr [2, 1, 2, 1, 0, 0, 0, 0]"
  using ab1 ab2 by (simp add: fb1 rep8)

lemma simhash_eval: "similarity_hash [[0x0F], [0x05]] = Inr [0x0F]"
  by (simp add: similarity_hash_def cb upt8 to_bytes_big_def Let_def del: count_bits.simps)


lemma similarity_hash_spec:
  assumes "hash_digests \<noteq> []" and "\<forall>d \<in> set hash_digests. length d = L"
  shows "\<exists>out. similarity_hash hash_digests = Inr out \<and> length out = L \<and>
           (\<forall>i < 8 * L. bit (from_bytes_big out) i \<longleftrightarrow>
              length hash_digests \<le> 2 * length (filter (\<lambda>d. bit (from_bytes_big d) i) hash_digests))"
proof -
  obtain first rest where fr: "hash_digests = first # rest"
    using assms(1) by (cases hash_digests) auto
  have lf: "length first = L" using assms(2) fr by simp
  define cnt where "cnt i = length (filter (\<lambda>d. bit (from_bytes_big d) i) hash_digests)" for i
  from count_bits_spec [of hash_digests L "replicate (L * 8) 0"] assms(2)
  obtain v where v: "count_bits L (replicate (L * 8) 0) hash_digests = Inr v"
      "length v = L * 8" "\<forall>i < L * 8. v ! i = cnt i"
    by (auto simp: cnt_def)
  define P where "P i \<longleftrightarrow> real (length hash_digests) * 1 / 2 \<le> real (v ! i)" for i
  define shash where
    "shash = fold (\<lambda>i shash. shash OR push_bit i (of_bool (P i))) [0..<L * 8] (0::nat)"
  have bits: "bit shash j \<longleftrightarrow> j < L * 8 \<and> P j" for j
    unfolding shash_def by (rule bit_shash)
  have pow: "(2::nat) ^ (L * 8) = 256 ^ L"
  proof -
    have "(2::nat) ^ (8 * L) = (2 ^ 8) ^ L" by (rule power_mult)
    then show ?thesis by (simp add: mult.commute)
  qed
  have "shash < 2 ^ (L * 8)" by (rule bits_below_imp_less) (simp add: bits)
  then have "shash < 256 ^ L" unfolding pow .
  from to_bytes_big_spec [OF this] obtain out where
    out: "to_bytes_big L shash = Inr out" "length out = L" "from_bytes_big out = shash"
    by blast
  have "similarity_hash hash_digests = to_bytes_big L shash"
    using v(1) lf unfolding similarity_hash_def fr shash_def P_def
    by (simp add: Let_def)
  then have res: "similarity_hash hash_digests = Inr out" using out(1) by simp
  have "bit (from_bytes_big out) i \<longleftrightarrow> length hash_digests \<le> 2 * cnt i" if "i < 8 * L" for i
  proof -
    have i: "i < L * 8" using that by simp
    then have "bit shash i \<longleftrightarrow> P i" by (simp add: bits)
    also have "\<dots> \<longleftrightarrow> length hash_digests \<le> 2 * (v ! i)" unfolding P_def by (rule half_le_iff)
    also have "v ! i = cnt i" using v(3) i by simp
    finally show ?thesis by (simp add: out(3))
  qed
  then show ?thesis using res out(2) unfolding cnt_def by blast
qed

text \<open>
  C2. For every non-empty sequence of byte digests all of the same length \<open>L\<close>,
  \<open>similarity_hash\<close> returns a digest of length \<open>L\<close> whose bit \<open>i\<close> (counted from the least
  significant bit of the big-endian integer) is 1 if and only if the number of input
  digests with bit \<open>i\<close> set is at least half the number of digests: ties give 1.
\<close>

theorem similarity_hash_majority:
  assumes "hash_digests \<noteq> []" and "\<forall>d \<in> set hash_digests. length d = L"
  shows "\<exists>out. similarity_hash hash_digests = Inr out \<and> length out = L \<and>
           (\<forall>i < 8 * L. bit (from_bytes_big out) i \<longleftrightarrow>
              length hash_digests \<le> 2 * length (filter (\<lambda>d. bit (from_bytes_big d) i) hash_digests))"
  using assms by (rule similarity_hash_spec)

theorem similarity_hash_majority_witness:
  "[[0x0F], [0x05 :: byte]] \<noteq> [] \<and> length [0x0F :: byte] = 1 \<and> length [0x05 :: byte] = 1
   \<and> similarity_hash [[0x0F], [0x05]] = Inr [0x0F]
   \<and> bit (from_bytes_big [0x0F]) 1
   \<and> length (filter (\<lambda>d. bit (from_bytes_big d) 1) [[0x0F], [0x05]]) = 1"
proof -
  have ne: "[[0x0F], [0x05 :: byte]] \<noteq> []" by simp
  have len: "\<forall>d \<in> set [[0x0F], [0x05 :: byte]]. length d = 1" by simp
  have cnt: "length (filter (\<lambda>d. bit (from_bytes_big d) 1) [[0x0F], [0x05]]) = 1"
    by (simp add: fb1)
  have one: "(1::nat) < 8 * 1" by simp
  from similarity_hash_majority [OF ne len] simhash_eval
  have "\<forall>i < 8 * 1. bit (from_bytes_big [0x0F]) i \<longleftrightarrow>
          length [[0x0F], [0x05 :: byte]]
            \<le> 2 * length (filter (\<lambda>d. bit (from_bytes_big d) i) [[0x0F], [0x05]])"
    by auto
  then have "bit (from_bytes_big [0x0F]) 1 \<longleftrightarrow>
          length [[0x0F], [0x05 :: byte]]
            \<le> 2 * length (filter (\<lambda>d. bit (from_bytes_big d) 1) [[0x0F], [0x05]])"
    using one by blast
  then have "bit (from_bytes_big [0x0F]) 1" unfolding cnt by simp
  then show ?thesis using simhash_eval cnt by simp
qed

section \<open>Gear chunker: the claims\<close>

lemma data_chunks_loop_unfold:
  "data_chunks_loop c stream sect counter =
     (case refill (stage_refill counter) sect stream of (sect', stream') \<Rightarrow>
        if sect' = [] then []
        else take (stage_boundary c counter sect') sect'
             # data_chunks_loop c stream' (drop (stage_boundary c counter sect') sect') (counter + 1))"
  by (subst data_chunks_loop.simps)
     (simp add: stage_refill_def stage_boundary_def Let_def split: prod.splits)

lemma stage_boundary_bounds:
  "min (length sect) (min_size_at counter) \<le> stage_boundary c counter sect
   \<and> stage_boundary c counter sect \<le> min (length sect) (max_size_at counter)"
  using chunk_length_bounds [of 20 640 40 sect c "0x016118" "0x00a0b1"]
    chunk_length_bounds [of 2048 65536 4096 sect c "0x0003590703530000" "0x0000d90003530000"]
  by (simp add: stage_boundary_def min_size_at_def max_size_at_def)

lemma refill_empty:
  assumes "refill n sect stream = ([], stream')" and "0 < n"
  shows "pending stream' = []"
proof (rule ccontr)
  assume ne: "pending stream' \<noteq> []"
  have sect: "sect = []" and r: "read n stream = ([], stream')"
    using assms by (auto simp: refill_def split: if_splits prod.splits)
  have "pending stream = pending stream'" using read_total [OF r] by simp
  then have "fst (read n stream) \<noteq> []" using read_nonempty [OF assms(2)] ne by simp
  then show False using r by simp
qed

lemma refill_filled:
  assumes "refill n sect stream = (sect', stream')" and "limits stream = []"
  shows "(n \<le> length sect' \<or> pending stream' = []) \<and> limits stream' = []"
  using assms by (auto simp: refill_def read_def split: if_splits)

lemma data_chunks_loop_induct [consumes 0, case_names step]:
  assumes "\<And>stream sect counter.
     (\<And>sect' stream'. refill (stage_refill counter) sect stream = (sect', stream') \<Longrightarrow> sect' \<noteq> []
        \<Longrightarrow> P stream' (drop (stage_boundary c counter sect') sect') (counter + 1))
     \<Longrightarrow> P stream sect counter"
  shows "P stream sect counter"
proof (induction "length (pending stream) + length sect" arbitrary: stream sect counter
    rule: less_induct)
  case (less stream sect counter)
  show ?case
  proof (rule assms)
    fix sect' stream'
    assume r: "refill (stage_refill counter) sect stream = (sect', stream')" and ne: "sect' \<noteq> []"
    have pos: "0 < stage_boundary c counter sect'"
      using stage_boundary_bounds [of sect' counter c] ne
      by (cases sect') (auto simp: min_size_at_def split: if_splits)
    have nz: "length sect' \<noteq> 0" using ne by simp
    have "length (pending stream') + length (drop (stage_boundary c counter sect') sect')
                 < length (pending stream) + length sect"
      by (rule refill_decrease [OF r [symmetric] nz pos])
    then show "P stream' (drop (stage_boundary c counter sect') sect') (counter + 1)"
      by (rule less)
  qed
qed

lemma concat_data_chunks_loop:
  "concat (data_chunks_loop c stream sect counter) = sect @ pending stream"
proof (induction stream sect counter rule: data_chunks_loop_induct [where c = c])
  case (step stream sect counter)
  obtain sect' stream' where r: "refill (stage_refill counter) sect stream = (sect', stream')"
    by (cases "refill (stage_refill counter) sect stream")
  have tot: "sect' @ pending stream' = sect @ pending stream" using refill_total [OF r] .
  show ?case
  proof (cases "sect' = []")
    case True
    have "0 < stage_refill counter" by (simp add: stage_refill_def)
    then have "pending stream' = []" using refill_empty [of _ sect stream stream'] r True by simp
    then show ?thesis using True tot r by (subst data_chunks_loop_unfold) simp
  next
    case False
    have "concat (data_chunks_loop c stream sect counter)
            = take (stage_boundary c counter sect') sect'
              @ concat (data_chunks_loop c stream' (drop (stage_boundary c counter sect') sect') (counter + 1))"
      using False r by (subst data_chunks_loop_unfold) simp
    also have "\<dots> = take (stage_boundary c counter sect') sect'
                     @ (drop (stage_boundary c counter sect') sect' @ pending stream')"
      using step [OF r False] by simp
    also have "\<dots> = sect' @ pending stream'" by simp
    finally show ?thesis using tot by simp
  qed
qed

lemma data_chunks_loop_upper:
  "k < length (data_chunks_loop c stream sect counter) \<Longrightarrow>
     0 < length (data_chunks_loop c stream sect counter ! k)
     \<and> length (data_chunks_loop c stream sect counter ! k) \<le> max_size_at (counter + k)"
proof (induction stream sect counter arbitrary: k rule: data_chunks_loop_induct [where c = c])
  case (step stream sect counter)
  obtain sect' stream' where r: "refill (stage_refill counter) sect stream = (sect', stream')"
    by (cases "refill (stage_refill counter) sect stream")
  let ?b = "stage_boundary c counter sect'"
  let ?rest = "data_chunks_loop c stream' (drop ?b sect') (counter + 1)"
  have ne: "sect' \<noteq> []"
    using step.prems r by (subst (asm) data_chunks_loop_unfold) (auto split: if_splits)
  have unf: "data_chunks_loop c stream sect counter = take ?b sect' # ?rest"
    using ne r by (subst data_chunks_loop_unfold) simp
  have bb: "min (length sect') (min_size_at counter) \<le> ?b" "?b \<le> min (length sect') (max_size_at counter)"
    using stage_boundary_bounds [of sect' counter c] by simp_all
  have pos: "0 < ?b" using bb(1) ne by (cases sect') (auto simp: min_size_at_def split: if_splits)
  show ?case
  proof (cases k)
    case 0
    then show ?thesis using bb(2) pos ne unf by simp
  next
    case (Suc k')
    have "k' < length ?rest" using step.prems Suc unf by simp
    from step.IH [OF r ne this] show ?thesis using Suc unf by simp
  qed
qed

lemma data_chunks_loop_lengths:
  "limits stream = [] \<Longrightarrow> k < length (data_chunks_loop c stream sect counter) \<Longrightarrow>
     min (length (concat (drop k (data_chunks_loop c stream sect counter)))) (min_size_at (counter + k))
       \<le> length (data_chunks_loop c stream sect counter ! k)
     \<and> length (data_chunks_loop c stream sect counter ! k) \<le> max_size_at (counter + k)"
proof (induction stream sect counter arbitrary: k rule: data_chunks_loop_induct [where c = c])
  case (step stream sect counter)
  obtain sect' stream' where r: "refill (stage_refill counter) sect stream = (sect', stream')"
    by (cases "refill (stage_refill counter) sect stream")
  let ?b = "stage_boundary c counter sect'"
  let ?rest = "data_chunks_loop c stream' (drop ?b sect') (counter + 1)"
  have full: "stage_refill counter \<le> length sect' \<or> pending stream' = []" and lim: "limits stream' = []"
    using refill_filled [OF r step.prems(1)] by simp_all
  have ne: "sect' \<noteq> []"
    using step.prems(2) r by (subst (asm) data_chunks_loop_unfold) (auto split: if_splits)
  have unf: "data_chunks_loop c stream sect counter = take ?b sect' # ?rest"
    using ne r by (subst data_chunks_loop_unfold) simp
  have bb: "min (length sect') (min_size_at counter) \<le> ?b" "?b \<le> min (length sect') (max_size_at counter)"
    using stage_boundary_bounds [of sect' counter c] by simp_all
  show ?case
  proof (cases k)
    case 0
    have "concat (data_chunks_loop c stream sect counter) = sect' @ pending stream'"
      using concat_data_chunks_loop [of c stream sect counter] refill_total [OF r] by simp
    moreover have "min (length sect' + length (pending stream')) (min_size_at counter) \<le> ?b"
    proof (cases "pending stream' = []")
      case True
      then show ?thesis using bb(1) by simp
    next
      case False
      then have "stage_refill counter \<le> length sect'" using full by simp
      then have "min_size_at counter \<le> length sect'"
        by (auto simp: stage_refill_def min_size_at_def split: if_splits)
      then show ?thesis using bb(1) by simp
    qed
    ultimately show ?thesis using 0 bb(2) unf by simp
  next
    case (Suc k')
    have "k' < length ?rest" using step.prems(2) Suc unf by simp
    from step.IH [OF r ne lim this] show ?thesis using Suc unf by simp
  qed
qed

lemma data_chunks_as_loop:
  "data_chunks c data
     = data_chunks_loop c (snd (read 640 (open_stream data))) (fst (read 640 (open_stream data))) 0"
  by (simp add: data_chunks_def Let_def split: prod.splits)

lemma concat_data_chunks_contents: "concat (data_chunks c data) = contents data"
proof -
  obtain sect stream where r: "read 640 (open_stream data) = (sect, stream)"
    by (cases "read 640 (open_stream data)")
  show ?thesis
    using read_total [OF r] r by (simp add: data_chunks_as_loop concat_data_chunks_loop contents_def)
qed


text \<open>
  C4. For every input, a \<open>bytes\<close> value or a stream, whatever the sizes of its reads,
  the concatenation, in emission order, of all chunks yielded by \<open>data_chunks\<close> equals the
  input.
\<close>

theorem concat_data_chunks:
  "concat (data_chunks c data) = contents data
   \<and> concat (data_chunks c (Bytes b)) = b
   \<and> concat (data_chunks c (BinaryIO stream)) = pending stream"
  using concat_data_chunks_contents [of c data] concat_data_chunks_contents [of c "Bytes b"]
    concat_data_chunks_contents [of c "BinaryIO stream"]
  by (simp add: contents_def open_stream_def BytesIO_def)

text \<open>
  What holds of the chunk lengths. Every chunk is non-empty and no longer than \<open>max_size\<close>,
  for every input. For a \<open>bytes\<close> value, and for a stream whose reads return all the bytes
  asked for, every chunk has at least \<open>min(len(remaining), min_size)\<close> bytes as well, where
  \<open>remaining\<close> is the rest of the input from this chunk on.
\<close>

lemma data_chunks_lengths_upper:
  assumes "k < length (data_chunks c data)"
  shows "0 < length (data_chunks c data ! k)
       \<and> length (data_chunks c data ! k) \<le> (if k < 100 then 640 else 65536)"
  using data_chunks_loop_upper [of k c _ _ 0] assms
  unfolding data_chunks_as_loop by (simp add: max_size_at_def)

lemma data_chunks_lengths_full_reads:
  assumes "limits (open_stream data) = []" and "k < length (data_chunks c data)"
  shows "min (length (drop (length (concat (take k (data_chunks c data)))) (contents data)))
             (if k < 100 then 20 else 2048)
           \<le> length (data_chunks c data ! k)
       \<and> length (data_chunks c data ! k) \<le> (if k < 100 then 640 else 65536)"
proof -
  let ?cs = "data_chunks c data"
  let ?s = "snd (read 640 (open_stream data))"
  let ?x = "fst (read 640 (open_stream data))"
  have lim: "limits ?s = []" using assms(1) by (simp add: read_def)
  have "concat ?cs = contents data" by (rule concat_data_chunks_contents)
  then have "contents data = concat (take k ?cs) @ concat (drop k ?cs)"
    by (metis append_take_drop_id concat_append)
  then have rem: "drop (length (concat (take k ?cs))) (contents data) = concat (drop k ?cs)"
    by (metis append_eq_conv_conj)
  show ?thesis
    using data_chunks_loop_lengths [OF lim, of k c ?x 0] assms(2)
    unfolding rem data_chunks_as_loop [symmetric] by (simp add: min_size_at_def max_size_at_def)
qed

lemma data_chunks_sample:
  "data_chunks sample_const (Bytes sample_data)
     = [[3, 1, 4, 1, 5, 9, 2, 6, 5, 3, 5, 8, 9, 7, 9, 3, 2, 3, 8, 4, 8, 0], [0, 7, 7]]"
  by (simp add: data_chunks_def open_stream_def BytesIO_def read_def refill_def
        data_chunks_loop.simps chunk_length_def chunk_length_loop.simps sample_data_def
        sample_const_def Let_def)

lemma data_chunks_sample_short_reads:
  "data_chunks sample_const (BinaryIO \<lparr>pending = sample_data, limits = [7, 7, 7, 7, 7, 7]\<rparr>)
     = [[3, 1, 4, 1, 5, 9, 2, 6, 5, 3, 5, 8, 9, 7], [9, 3, 2, 3, 8, 4, 8], [0, 0, 7, 7]]"
  by (simp add: data_chunks_def open_stream_def read_def refill_def
        data_chunks_loop.simps chunk_length_def sample_data_def Let_def)

text \<open>
  C5 fails on a stream with short reads. \<open>data_chunks\<close> fills its buffer with one \<open>read\<close>
  call and takes a buffer of at most \<open>min_size\<close> bytes for the end of the data. On a
  stream of 25 bytes whose reads return 7 bytes at a time the first chunk is the 14 bytes
  of the first two reads, although 25 bytes remain and \<open>min(25, 20) = 20\<close>; the chunks
  have 14, 7 and 4 bytes. The same 25 bytes given as a \<open>bytes\<close> value are cut into chunks
  of 22 and 3 bytes, so the chunks depend on the sizes of the reads and not only on the
  content.
\<close>

theorem data_chunks_short_read:
  "contents (BinaryIO \<lparr>pending = sample_data, limits = [7, 7, 7, 7, 7, 7]\<rparr>) = sample_data
   \<and> length sample_data = 25
   \<and> map length (data_chunks sample_const
        (BinaryIO \<lparr>pending = sample_data, limits = [7, 7, 7, 7, 7, 7]\<rparr>)) = [14, 7, 4]
   \<and> length (data_chunks sample_const
        (BinaryIO \<lparr>pending = sample_data, limits = [7, 7, 7, 7, 7, 7]\<rparr>) ! 0)
       < min (length (drop (length (concat (take 0 (data_chunks sample_const
                (BinaryIO \<lparr>pending = sample_data, limits = [7, 7, 7, 7, 7, 7]\<rparr>)))))
              sample_data)) 20
   \<and> map length (data_chunks sample_const (Bytes sample_data)) = [22, 3]"
  unfolding data_chunks_sample_short_reads data_chunks_sample
  by (simp add: contents_def open_stream_def sample_data_def)

section \<open>Merkle top hash: the claims\<close>














lemma encode_returns_9:
  assumes "length d = 9"
  shows "\<exists>code. encode c d = Inr code"
proof -
  have l1: "length (take 1 d) = 1 \<or> length (take 1 d) = 8" using assms by simp
  have l8: "length (drop 1 d) = 1 \<or> length (drop 1 d) = 8" using assms by simp
  obtain a where a: "encode c (take 1 d) = Inr a" using l1 by (simp add: encode_short)
  obtain b where b: "encode c (drop 1 d) = Inr b" using l8 by (simp add: encode_short)
  have "encode c d = Inr (a @ b)" using assms a b by (simp add: encode_9)
  then show ?thesis by blast
qed



lemma contents_simps:
  "contents (Bytes b) = b" "contents (BinaryIO stream) = pending stream"
  by (simp_all add: contents_def open_stream_def BytesIO_def)









section \<open>Content-ID-Text and Data-ID of the empty input\<close>

lemma data_chunks_empty:
  assumes "contents data = []"
  shows "data_chunks c data = []"
proof (rule ccontr)
  assume "data_chunks c data \<noteq> []"
  then have k: "0 < length (data_chunks c data)" by simp
  then have "0 < length (data_chunks c data ! 0)" using data_chunks_lengths_upper [OF k] by simp
  moreover have "data_chunks c data ! 0 \<in> set (data_chunks c data)" using k by simp
  moreover have "concat (data_chunks c data) = []"
    using concat_data_chunks_contents [of c data] assms by simp
  ultimately show False by auto
qed

lemma int_base2_bound_aux:
  fixes ds :: "nat list" and acc :: nat
  shows "\<forall>d \<in> set ds. d \<le> 1 \<Longrightarrow> fold (\<lambda>d acc. 2 * acc + d) ds acc < (acc + 1) * 2 ^ length ds"
proof (induction ds arbitrary: acc)
  case Nil
  then show ?case by simp
next
  case (Cons d ds)
  then have d: "d \<le> 1" and ds: "\<forall>d \<in> set ds. d \<le> 1" by simp_all
  have "fold (\<lambda>d acc. 2 * acc + d) ds (2 * acc + d) < (2 * acc + d + 1) * 2 ^ length ds"
    by (rule Cons.IH [OF ds])
  also have "\<dots> \<le> (2 * acc + 2) * 2 ^ length ds"
    using d by (intro mult_right_mono) simp_all
  also have "\<dots> = (acc + 1) * 2 ^ length (d # ds)" by simp
  finally show ?case by simp
qed

lemma int_base2_bound: "\<forall>d \<in> set ds. d \<le> 1 \<Longrightarrow> int_base2 ds < 2 ^ length ds"
  using int_base2_bound_aux [of ds 0] by (simp add: int_base2_def)

lemma lsb_bits: "\<forall>d \<in> set (map (\<lambda>x. nat (x AND 1)) (minhash :: int list)). d \<le> 1"
proof -
  have "nat (x AND 1) \<le> 1" for x :: int
    by (simp add: and_one_eq)
  then show ?thesis by simp
qed

lemma minhash_digest_returns:
  assumes "length minhash = 128"
  shows "\<exists>d. minhash_digest minhash = Inr d \<and> length d = 8"
proof -
  define lsb where "lsb = map (\<lambda>x. nat (x AND 1)) minhash"
  have bits: "\<forall>d \<in> set lsb. d \<le> 1" unfolding lsb_def by (rule lsb_bits)
  have len: "length lsb = 128" using assms by (simp add: lsb_def)
  have "\<forall>d \<in> set (take 64 lsb). d \<le> 1" using bits by (meson in_set_takeD)
  then have "int_base2 (take 64 lsb) < 2 ^ length (take 64 lsb)" by (rule int_base2_bound)
  then have va: "int_base2 (take 64 lsb) < 256 ^ 8" using len by simp
  have "\<forall>d \<in> set (drop 64 lsb). d \<le> 1" using bits by (meson in_set_dropD)
  then have "int_base2 (drop 64 lsb) < 2 ^ length (drop 64 lsb)" by (rule int_base2_bound)
  then have vb: "int_base2 (drop 64 lsb) < 256 ^ 8" using len by simp
  from to_bytes_big_spec [OF va] obtain a where
    a: "to_bytes_big 8 (int_base2 (take 64 lsb)) = Inr a" "length a = 8" by blast
  from to_bytes_big_spec [OF vb] obtain b where
    b: "to_bytes_big 8 (int_base2 (drop 64 lsb)) = Inr b" "length b = 8" by blast
  have ne: "[a, b] \<noteq> []" by simp
  have ls: "\<forall>d \<in> set [a, b]. length d = 8" using a(2) b(2) by simp
  from similarity_hash_spec [OF ne ls] obtain out where
    "similarity_hash [a, b] = Inr out" "length out = 8" by blast
  then show ?thesis using a(1) b(1) by (simp add: minhash_digest_def lsb_def [symmetric])
qed

lemma ff8: "replicate 8 (255 :: byte) = [255, 255, 255, 255, 255, 255, 255, 255]"
  by (simp add: eval_nat_numeral)

lemma tb_ff8: "to_bytes_big 8 18446744073709551615 = Inr [255, 255, 255, 255, 255, 255, 255, 255]"
  by (simp add: to_bytes_big_def upt_rec_numeral upt_conv_Cons)

lemma from_bytes_big_snoc: "from_bytes_big (d @ [x]) = from_bytes_big d * 256 + unat x"
  by (simp add: from_bytes_big_def)

lemma from_bytes_big_bound: "from_bytes_big d < 256 ^ length d"
proof (induction d rule: rev_induct)
  case Nil
  then show ?case by (simp add: from_bytes_big_def)
next
  case (snoc x d)
  have "unat x < 256" using unsigned_less [of x] by simp
  moreover have "from_bytes_big d + 1 \<le> 256 ^ length d" using snoc by simp
  then have "(from_bytes_big d + 1) * 256 \<le> 256 ^ length d * 256" by (rule mult_le_mono1)
  ultimately show ?case by (simp add: from_bytes_big_snoc)
qed

lemma to_bytes_big_from_bytes_big: "to_bytes_big (length d) (from_bytes_big d) = Inr d"
proof (induction d rule: rev_induct)
  case Nil
  then show ?case by (simp add: to_bytes_big_def from_bytes_big_def)
next
  case (snoc x d)
  let ?v = "from_bytes_big d" and ?n = "length d"
  have x: "unat x < 256" using unsigned_less [of x] by simp
  have IH: "rev (map (\<lambda>k. of_nat (?v div 256 ^ k) :: byte) [0..<?n]) = d"
    using snoc from_bytes_big_bound [of d] by (simp add: to_bytes_big_def)
  have upt: "[0..<Suc ?n] = 0 # map Suc [0..<?n]"
    by (simp only: upt_conv_Cons [OF zero_less_Suc] map_Suc_upt)
  have shift: "(?v * 256 + unat x) div 256 ^ Suc k = ?v div 256 ^ k" for k
    using x by (simp add: div_mult2_eq)
  have z: "(256 :: byte) = 0" by simp
  have first: "(of_nat (?v * 256 + unat x) :: byte) = x"
    by (simp add: z)
  have "map (\<lambda>k. of_nat ((?v * 256 + unat x) div 256 ^ k) :: byte) [0..<Suc ?n]
          = x # map (\<lambda>k. of_nat (?v div 256 ^ k)) [0..<?n]"
    unfolding upt using first shift by (simp add: o_def del: power_Suc)
  then have "rev (map (\<lambda>k. of_nat ((?v * 256 + unat x) div 256 ^ k) :: byte) [0..<Suc ?n]) = d @ [x]"
    using IH by simp
  then show ?case
    using from_bytes_big_bound [of "d @ [x]"]
    by (simp add: to_bytes_big_def from_bytes_big_snoc del: upt_Suc)
qed

lemma similarity_hash_same: "similarity_hash [d, d] = Inr d"
proof -
  have ne: "[d, d] \<noteq> []" by simp
  have ls: "\<forall>x \<in> set [d, d]. length x = length d" by simp
  from similarity_hash_spec [OF ne ls] obtain out where
    out: "similarity_hash [d, d] = Inr out" "length out = length d"
      "\<forall>i < 8 * length d. bit (from_bytes_big out) i \<longleftrightarrow>
         length [d, d] \<le> 2 * length (filter (\<lambda>x. bit (from_bytes_big x) i) [d, d])"
    by blast
  have pow: "(256::nat) ^ length d = 2 ^ (8 * length d)"
  proof -
    have "(2::nat) ^ (8 * length d) = (2 ^ 8) ^ length d" by (rule power_mult)
    then show ?thesis by simp
  qed
  have b1: "from_bytes_big out < 2 ^ (8 * length d)"
    using from_bytes_big_bound [of out] out(2) pow by simp
  have b2: "from_bytes_big d < 2 ^ (8 * length d)"
    using from_bytes_big_bound [of d] pow by simp
  have "from_bytes_big out = from_bytes_big d"
  proof (rule bit_eqI)
    fix j
    show "bit (from_bytes_big out) j \<longleftrightarrow> bit (from_bytes_big d) j"
    proof (cases "j < 8 * length d")
      case True
      then show ?thesis using out(3) by auto
    next
      case False
      have "take_bit (8 * length d) (from_bytes_big out) = from_bytes_big out"
        using b1 by (simp add: take_bit_nat_eq_self_iff)
      then have "\<not> bit (from_bytes_big out) j"
        using False by (metis bit_take_bit_iff)
      moreover have "take_bit (8 * length d) (from_bytes_big d) = from_bytes_big d"
        using b2 by (simp add: take_bit_nat_eq_self_iff)
      then have "\<not> bit (from_bytes_big d) j"
        using False by (metis bit_take_bit_iff)
      ultimately show ?thesis by simp
    qed
  qed
  then have "to_bytes_big (length out) (from_bytes_big out) = to_bytes_big (length d) (from_bytes_big d)"
    using out(2) by simp
  then have "out = d" by (simp add: to_bytes_big_from_bytes_big)
  then show ?thesis using out(1) by simp
qed

lemma fold_ones:
  "fold (\<lambda>d acc. 2 * acc + d) (replicate n (1::nat)) acc + 1 = (acc + 1) * 2 ^ n"
  by (induction n arbitrary: acc) (simp_all add: algebra_simps)

lemma int_base2_ones: "int_base2 (replicate 64 1) = 18446744073709551615"
  using fold_ones [of 64 0] by (simp add: int_base2_def)

lemma minhash_digest_initial:
  "minhash_digest (replicate 128 4294967295) = Inr (replicate 8 255)"
proof -
  have lsb: "map (\<lambda>x. nat (x AND 1)) (replicate 128 (4294967295 :: int)) = replicate 128 1"
    by simp
  have t: "take 64 (replicate 128 (1::nat)) = replicate 64 1"
    and d: "drop 64 (replicate 128 (1::nat)) = replicate 64 1"
    by simp_all
  have tb: "to_bytes_big 8 (int_base2 (replicate 64 1)) = Inr (replicate 8 255)"
    unfolding int_base2_ones ff8 by (rule tb_ff8)
  show ?thesis
    unfolding minhash_digest_def Let_def lsb t d tb
    by (simp only: sum.case similarity_hash_same)
qed

lemma data_id_empty:
  assumes "contents data = []"
  shows "data_id c l data = encode c (HEAD_DID c @ replicate 8 255)"
proof -
  have "minimum_hash c [] = Inr (replicate 128 4294967295)"
    by (simp add: minimum_hash_empty)
  then show ?thesis
    by (simp add: data_id_def data_chunks_empty [OF assms] minhash_digest_initial
          del: replicate_eq_replicate)
qed

lemma split_empty: "split l [] = []"
  by (simp add: split_def)

lemma normalize_text_empty:
  assumes "normalize_NFD l [] = []" and "normalize_NFC l [] = []"
  shows "normalize_text l [] = []"
  using assms by (simp add: normalize_text_def split_empty)

lemma sliding_window_empty:
  assumes "2 \<le> width"
  shows "sliding_window ([] :: 'a list) width = Inr [[]]"
  using assms by (simp add: sliding_window_def)

lemma content_id_text_empty:
  assumes nf: "normalize_NFKC l [] = []" "normalize_NFD l [] = []" "normalize_NFC l [] = []"
    and w: "2 \<le> WINDOW_SIZE_CID_T c"
    and p: "MINHASH_PERMUTATIONS c = (a, b)" "128 \<le> length a" "128 \<le> length b"
    and h: "length (if partial then HEAD_CID_T_PCF c else HEAD_CID_T c) = 1"
  shows "\<exists>minhash digest code.
           minimum_hash c [uint (xxh32_intdigest l (utf8_encode l []))] = Inr minhash
         \<and> minhash_digest minhash = Inr digest
         \<and> content_id_text c l [] partial
             = encode c ((if partial then HEAD_CID_T_PCF c else HEAD_CID_T c) @ digest)
         \<and> content_id_text c l [] partial = Inr code"
proof -
  let ?f = "uint (xxh32_intdigest l (utf8_encode l []))"
  from minimum_hash_loop_slots [OF p(2) p(3), of "replicate 128 max_hash" "[?f]"]
  obtain minhash where mh: "minimum_hash_loop a b (replicate 128 max_hash) [?f] = Inr minhash"
    "length minhash = 128" by auto
  have m: "minimum_hash c [?f] = Inr minhash" using mh(1) p(1) by (simp add: minimum_hash_def)
  from minhash_digest_returns [OF mh(2)] obtain digest where
    d: "minhash_digest minhash = Inr digest" "length digest = 8" by blast
  let ?head = "if partial then HEAD_CID_T_PCF c else HEAD_CID_T c"
  have "length (?head @ digest) = 9" using h d(2) by simp
  from encode_returns_9 [OF this] obtain code where code: "encode c (?head @ digest) = Inr code" ..
  have "content_id_text c l [] partial = encode c (?head @ digest)"
    using nf w m d(1)
    by (simp add: content_id_text_def normalize_text_empty split_empty sliding_window_empty Let_def)
  then show ?thesis using m d(1) code by auto
qed

lemma encode_sample_ones:
  "encode sample_const ([0x20] @ replicate 8 255) = Inr (map of_char ''CDjpX1DedGfPv'')"
  by (simp add: encode.simps sample_eval ff8)


text \<open>
  C10. \<open>minimum_hash\<close> of the empty feature list is the initial register: 128 entries equal
  to \<open>2^32 - 1\<close>. \<open>data_id\<close> of the empty byte stream (an empty \<open>bytes\<close> value or a stream
  with nothing to read) has no chunk, so it folds that register
  and returns the code of the header followed by eight bytes \<open>0xFF\<close>. \<open>content_id_text\<close> of the
  empty string returns a code as well: there \<open>sliding_window\<close> of the empty word list yields
  one empty shingle, so the register folded is \<open>minimum_hash\<close> of the single feature
  \<open>xxh32\<close> of the empty byte string. Neither fails, given tables of 128 permutations, a
  window width of at least 2, one-byte headers and normal forms of the empty string that
  are empty.
\<close>

theorem minimum_hash_empty_ids:
  "minimum_hash c [] = Inr (replicate 128 (2 ^ 32 - 1))
   \<and> data_id c l (Bytes []) = encode c (HEAD_DID c @ replicate 8 255)
   \<and> data_id c l (BinaryIO \<lparr>pending = [], limits = ks\<rparr>) = encode c (HEAD_DID c @ replicate 8 255)
   \<and> (length (HEAD_DID c) = 1 \<longrightarrow> (\<exists>code. data_id c l (Bytes []) = Inr code))
   \<and> (normalize_NFKC l [] = [] \<and> normalize_NFD l [] = [] \<and> normalize_NFC l [] = []
        \<and> 2 \<le> WINDOW_SIZE_CID_T c
        \<and> 128 \<le> length (fst (MINHASH_PERMUTATIONS c)) \<and> 128 \<le> length (snd (MINHASH_PERMUTATIONS c))
        \<and> length (HEAD_CID_T c) = 1 \<and> length (HEAD_CID_T_PCF c) = 1
      \<longrightarrow> (\<exists>minhash digest code.
             minimum_hash c [uint (xxh32_intdigest l (utf8_encode l []))] = Inr minhash
           \<and> minhash_digest minhash = Inr digest
           \<and> content_id_text c l [] partial
               = encode c ((if partial then HEAD_CID_T_PCF c else HEAD_CID_T c) @ digest)
           \<and> content_id_text c l [] partial = Inr code))"
proof -
  have d1: "data_id c l (Bytes []) = encode c (HEAD_DID c @ replicate 8 255)"
    by (rule data_id_empty) (simp add: contents_simps)
  have d2: "data_id c l (BinaryIO \<lparr>pending = [], limits = ks\<rparr>)
              = encode c (HEAD_DID c @ replicate 8 255)"
    by (rule data_id_empty) (simp add: contents_simps)
  have d: "length (HEAD_DID c) = 1 \<longrightarrow> (\<exists>code. data_id c l (Bytes []) = Inr code)"
  proof
    assume "length (HEAD_DID c) = 1"
    then have "length (HEAD_DID c @ replicate 8 255) = 9" by simp
    from encode_returns_9 [OF this] show "\<exists>code. data_id c l (Bytes []) = Inr code"
      unfolding d1 .
  qed
  have t: "normalize_NFKC l [] = [] \<and> normalize_NFD l [] = [] \<and> normalize_NFC l [] = []
        \<and> 2 \<le> WINDOW_SIZE_CID_T c
        \<and> 128 \<le> length (fst (MINHASH_PERMUTATIONS c)) \<and> 128 \<le> length (snd (MINHASH_PERMUTATIONS c))
        \<and> length (HEAD_CID_T c) = 1 \<and> length (HEAD_CID_T_PCF c) = 1
      \<longrightarrow> (\<exists>minhash digest code.
             minimum_hash c [uint (xxh32_intdigest l (utf8_encode l []))] = Inr minhash
           \<and> minhash_digest minhash = Inr digest
           \<and> content_id_text c l [] partial
               = encode c ((if partial then HEAD_CID_T_PCF c else HEAD_CID_T c) @ digest)
           \<and> content_id_text c l [] partial = Inr code)"
  proof (intro impI, elim conjE)
    assume nf: "normalize_NFKC l [] = []" "normalize_NFD l [] = []" "normalize_NFC l [] = []"
      and w: "2 \<le> WINDOW_SIZE_CID_T c"
      and p: "128 \<le> length (fst (MINHASH_PERMUTATIONS c))" "128 \<le> length (snd (MINHASH_PERMUTATIONS c))"
      and h: "length (HEAD_CID_T c) = 1" "length (HEAD_CID_T_PCF c) = 1"
    have pp: "MINHASH_PERMUTATIONS c = (fst (MINHASH_PERMUTATIONS c), snd (MINHASH_PERMUTATIONS c))"
      by simp
    have hh: "length (if partial then HEAD_CID_T_PCF c else HEAD_CID_T c) = 1" using h by simp
    show "\<exists>minhash digest code.
             minimum_hash c [uint (xxh32_intdigest l (utf8_encode l []))] = Inr minhash
           \<and> minhash_digest minhash = Inr digest
           \<and> content_id_text c l [] partial
               = encode c ((if partial then HEAD_CID_T_PCF c else HEAD_CID_T c) @ digest)
           \<and> content_id_text c l [] partial = Inr code"
      by (rule content_id_text_empty [OF nf w pp p hh])
  qed
  from minimum_hash_empty [of c] d1 d2 d t show ?thesis by (intro conjI)
qed

theorem minimum_hash_empty_ids_witness:
  "length (HEAD_DID sample_const) = 1
   \<and> data_id sample_const sample_lib (Bytes []) = Inr (map of_char ''CDjpX1DedGfPv'')
   \<and> normalize_NFKC sample_lib [] = [] \<and> normalize_NFD sample_lib [] = []
   \<and> normalize_NFC sample_lib [] = []
   \<and> 2 \<le> WINDOW_SIZE_CID_T sample_const
   \<and> 128 \<le> length (fst (MINHASH_PERMUTATIONS sample_const))
   \<and> 128 \<le> length (snd (MINHASH_PERMUTATIONS sample_const))
   \<and> length (HEAD_CID_T sample_const) = 1 \<and> length (HEAD_CID_T_PCF sample_const) = 1
   \<and> (\<exists>code. content_id_text sample_const sample_lib [] False = Inr code)"
proof -
  note t = minimum_hash_empty_ids [where c = sample_const and l = sample_lib and partial = False
      and ks = "[]"]
  have hyp: "normalize_NFKC sample_lib [] = [] \<and> normalize_NFD sample_lib [] = []
     \<and> normalize_NFC sample_lib [] = []
     \<and> 2 \<le> WINDOW_SIZE_CID_T sample_const
     \<and> 128 \<le> length (fst (MINHASH_PERMUTATIONS sample_const))
     \<and> 128 \<le> length (snd (MINHASH_PERMUTATIONS sample_const))
     \<and> length (HEAD_CID_T sample_const) = 1 \<and> length (HEAD_CID_T_PCF sample_const) = 1"
    by (simp add: sample_const_def sample_lib_def)
  have hd: "length (HEAD_DID sample_const) = 1" by (simp add: sample_const_def)
  have "data_id sample_const sample_lib (Bytes [])
          = encode sample_const (HEAD_DID sample_const @ replicate 8 255)"
    using t by blast
  also have "HEAD_DID sample_const = [0x20]" by (simp add: sample_const_def)
  finally have did: "data_id sample_const sample_lib (Bytes []) = Inr (map of_char ''CDjpX1DedGfPv'')"
    by (simp only: encode_sample_ones)
  have "\<exists>code. content_id_text sample_const sample_lib [] False = Inr code"
    using t hyp by blast
  then show ?thesis using hd did hyp by blast
qed

section \<open>Hamming distance: the claims\<close>























section \<open>Text normalization: the claims\<close>

lemma nfd_inert_string:
  assumes "normalize_NFD l [] = []" and "\<forall>d \<in> set s. nfd_inert l d"
  shows "normalize_NFD l s = s"
  using assms(2)
proof (induction s)
  case Nil
  then show ?case using assms(1) by simp
next
  case (Cons d s)
  then have "nfd_inert l d" and IH: "normalize_NFD l s = s" by simp_all
  then have "normalize_NFD l ([] @ d # s) = normalize_NFD l [] @ d # normalize_NFD l s"
    unfolding nfd_inert_def by blast
  then show ?case using assms(1) IH by simp
qed

lemma split_loop_words:
  assumes "\<forall>ch \<in> set word. \<not> sp ch"
  shows "\<forall>x \<in> set (split_loop sp word s).
           x \<noteq> [] \<and> (\<forall>ch \<in> set x. \<not> sp ch) \<and> set x \<subseteq> set word \<union> set s"
  using assms
proof (induction s arbitrary: word)
  case Nil
  then show ?case by simp
next
  case (Cons ch s)
  show ?case
  proof (cases "sp ch")
    case True
    have "\<forall>x \<in> set (split_loop sp [] s).
            x \<noteq> [] \<and> (\<forall>ch \<in> set x. \<not> sp ch) \<and> set x \<subseteq> set [] \<union> set s"
      by (rule Cons.IH) simp
    then show ?thesis using True Cons.prems by auto
  next
    case False
    have "\<forall>x \<in> set (split_loop sp (word @ [ch]) s).
            x \<noteq> [] \<and> (\<forall>c \<in> set x. \<not> sp c) \<and> set x \<subseteq> set (word @ [ch]) \<union> set s"
      by (rule Cons.IH) (use False Cons.prems in auto)
    then show ?thesis using False by auto
  qed
qed

lemma split_loop_append:
  assumes "\<forall>ch \<in> set x. \<not> sp ch"
  shows "split_loop sp word (x @ rest) = split_loop sp (word @ x) rest"
  using assms by (induction x arbitrary: word) simp_all

lemma split_loop_join:
  assumes "sp 32" and "\<forall>x \<in> set ws. x \<noteq> [] \<and> (\<forall>ch \<in> set x. \<not> sp ch)"
  shows "split_loop sp [] (join [32] ws) = ws"
  using assms(2)
proof (induction "[32 :: nat]" ws rule: join.induct)
  case 1
  then show ?case by simp
next
  case (2 x)
  then have "split_loop sp [] (x @ []) = split_loop sp ([] @ x) []"
    by (intro split_loop_append) simp
  then show ?case using 2 by simp
next
  case (3 x y ys)
  have x: "\<forall>ch \<in> set x. \<not> sp ch" "x \<noteq> []" using 3(2) by simp_all
  have "split_loop sp [] (x @ 32 # join [32] (y # ys)) = split_loop sp ([] @ x) (32 # join [32] (y # ys))"
    by (rule split_loop_append [OF x(1)])
  also have "\<dots> = x # split_loop sp [] (join [32] (y # ys))"
    using assms(1) x(2) by simp
  also have "split_loop sp [] (join [32] (y # ys)) = y # ys"
    using 3 by simp
  finally show ?case by simp
qed

lemma set_join: "set (join [32 :: nat] ws) \<subseteq> insert 32 (\<Union>x \<in> set ws. set x)"
  by (induction "[32 :: nat]" ws rule: join.induct) auto

lemma concat_singletons:
  assumes "\<forall>ch \<in> set s. concat (f ch) = [ch]"
  shows "concat (concat (map f s)) = s"
  using assms by (induction s) simp_all

lemma Z_not_kept: "fst (category l ch) = CHR ''Z'' \<Longrightarrow> \<not> kept l ch"
  by (simp add: kept_def)


lemma sample_inert: "nfd_inert sample_lib d"
  by (simp add: nfd_inert_def sample_lib_def)

lemma sample_kept: "kept sample_lib ch \<longleftrightarrow> (48 \<le> ch \<and> ch \<le> 57) \<or> (65 \<le> ch \<and> ch \<le> 90) \<or> (97 \<le> ch \<and> ch \<le> 122)"
  by (auto simp: kept_def sample_lib_def)

lemma sample_stable:
  assumes "kept sample_lib ch" and "d \<in> set (lower sample_lib ch)"
  shows "stable sample_lib d"
proof -
  have d: "(48 \<le> d \<and> d \<le> 57) \<or> (97 \<le> d \<and> d \<le> 122)"
    using assms unfolding sample_kept by (auto simp: sample_lib_def split: if_splits)
  then have "kept sample_lib d" unfolding sample_kept by auto
  moreover have "lower sample_lib d = [d]" "\<not> isspace sample_lib d"
    using d by (auto simp: sample_lib_def)
  ultimately show ?thesis by (simp add: stable_def sample_inert)
qed

lemma sample_unicode_ok: "unicode_ok sample_lib"
proof -
  have "normalize_NFD sample_lib [] = []"
    "\<forall>s. normalize_NFD sample_lib (normalize_NFC sample_lib s) = normalize_NFD sample_lib s"
    "fst (category sample_lib 32) = CHR ''Z''" "isspace sample_lib 32"
    by (simp_all add: sample_lib_def)
  then show ?thesis
    unfolding unicode_ok_def using sample_stable sample_inert by blast
qed

lemma sample_normalize:
  "normalize_text sample_lib (map of_char ''  Hello  World ? '') = map of_char ''hello world''"
  by (simp add: normalize_text_def split_def sample_lib_def Let_def)


text \<open>
  C8. \<open>normalize_text\<close> is idempotent: for every string \<open>X\<close>, applying \<open>normalize_text\<close> to
  \<open>normalize_text X\<close> returns it unchanged. The Unicode Character Database is not part of
  the program, so the theorem is about every library that satisfies \<open>unicode_ok\<close>.
\<close>

theorem normalize_text_idempotent:
  assumes ok: "unicode_ok l"
  shows "normalize_text l (normalize_text l X) = normalize_text l X"
proof -
  define f where "f = (\<lambda>ch. let cat = category l ch
                    in if fst cat = CHR ''Z'' then [[32]]
                       else if fst cat \<in> set ''LNS'' then [lower l ch]
                       else [])"
  define pass where "pass s = join [32] (split l (concat (concat (map f s))))" for s
  have nt: "normalize_text l s = normalize_NFC l (pass (normalize_NFD l s))" for s
    by (simp add: normalize_text_def pass_def f_def Let_def)
  from ok have nfd0: "normalize_NFD l [] = []"
    and nfdc: "\<And>s. normalize_NFD l (normalize_NFC l s) = normalize_NFD l s"
    and low: "\<And>s ch d. ch \<in> set (normalize_NFD l s) \<Longrightarrow> kept l ch \<Longrightarrow> d \<in> set (lower l ch) \<Longrightarrow> stable l d"
    and sp32: "nfd_inert l 32" "fst (category l 32) = CHR ''Z''" "isspace l 32"
    unfolding unicode_ok_def by blast+
  define D where "D = normalize_NFD l X"
  define F where "F = concat (concat (map f D))"
  define ws where "ws = split l F"
  define C where "C = join [32] ws"
  have passD: "pass D = C" by (simp add: pass_def F_def ws_def C_def)
  (* every character that the filter lets through is the space or stable *)
  have F_chars: "d = 32 \<or> stable l d" if "d \<in> set F" for d
  proof -
    from that obtain ch where ch: "ch \<in> set D" "d \<in> set (concat (f ch))"
      by (auto simp: F_def)
    show ?thesis
    proof (cases "fst (category l ch) = CHR ''Z''")
      case True
      then show ?thesis using ch(2) by (simp add: f_def)
    next
      case False
      then have "kept l ch \<and> d \<in> set (lower l ch)"
        using ch(2) by (auto simp: f_def kept_def Let_def split: if_splits)
      then show ?thesis using low [of ch X d] ch(1) by (simp add: D_def)
    qed
  qed
  (* the words are non-empty and made of stable characters *)
  have words: "x \<noteq> [] \<and> (\<forall>ch \<in> set x. \<not> isspace l ch) \<and> set x \<subseteq> set F" if "x \<in> set ws" for x
    using split_loop_words [of "[]" "isspace l" F] that by (simp add: ws_def split_def)
  have word_chars: "stable l d" if "x \<in> set ws" "d \<in> set x" for x d
  proof -
    have "d \<in> set F" "\<not> isspace l d" using words [OF that(1)] that(2) by auto
    then show ?thesis using F_chars [of d] sp32(3) by auto
  qed
  have C_chars: "d = 32 \<or> stable l d" if "d \<in> set C" for d
    using that set_join [of ws] word_chars unfolding C_def by auto
  (* the second pass: NFD and the filter leave C as it is *)
  have "\<forall>d \<in> set C. nfd_inert l d"
    using C_chars sp32(1) by (auto simp: stable_def)
  then have nfdC: "normalize_NFD l C = C" by (rule nfd_inert_string [OF nfd0])
  have "concat (f d) = [d]" if "d \<in> set C" for d
  proof (cases "d = 32")
    case True
    then show ?thesis using sp32(2) by (simp add: f_def)
  next
    case False
    then have st: "stable l d" using C_chars [OF that] by simp
    then have "kept l d" "lower l d = [d]" by (simp_all add: stable_def)
    moreover have "fst (category l d) \<noteq> CHR ''Z''" using Z_not_kept \<open>kept l d\<close> by blast
    ultimately show ?thesis by (simp add: f_def kept_def)
  qed
  then have filt: "concat (concat (map f C)) = C" by (intro concat_singletons) simp
  have spl: "split l C = ws"
    unfolding C_def split_def
    using words sp32(3) by (intro split_loop_join) auto
  have passC: "pass C = C"
    unfolding pass_def filt spl by (simp add: C_def)
  have first: "normalize_text l X = normalize_NFC l C"
    by (simp add: nt D_def [symmetric] passD)
  have "normalize_text l (normalize_NFC l C) = normalize_NFC l (pass (normalize_NFD l (normalize_NFC l C)))"
    by (rule nt)
  also have "\<dots> = normalize_NFC l (pass C)" by (simp add: nfdc nfdC)
  also have "\<dots> = normalize_NFC l C" by (simp add: passC)
  finally show ?thesis by (simp add: first)
qed

theorem normalize_text_idempotent_witness:
  "unicode_ok sample_lib
   \<and> normalize_text sample_lib (map of_char ''  Hello  World ? '') = map of_char ''hello world''
   \<and> normalize_text sample_lib (map of_char ''hello world'') = map of_char ''hello world''"
proof -
  from normalize_text_idempotent [OF sample_unicode_ok, of "map of_char ''  Hello  World ? ''"]
  have "normalize_text sample_lib (map of_char ''hello world'') = map of_char ''hello world''"
    unfolding sample_normalize .
  then show ?thesis using sample_unicode_ok sample_normalize by blast
qed

end
